theory Spec2Isabelle
  imports Main
begin

section \<open>Values, objects and classes\<close>

text \<open>
  The engine of \<^verbatim>\<open>pydantic_resolve/resolver.py\<close> walks Python objects and mutates
  them in place.  Objects therefore live in a heap and are referred to by address;
  a list or a tuple is a heap object too (it has an identity and may carry
  attributes), with its elements in \<open>items\<close>; \<open>attrs\<close> holds what \<^verbatim>\<open>getattr\<close>
  finds on the object besides the resolver and post methods of its class.  A
  coroutine or a future is represented by the value that awaiting it produces; an
  awaitable that never completes, and user code that raises an exception of its
  own, are outside the model.
\<close>

type_synonym addr = nat
type_synonym cname = string

datatype val =
    VNone
  | VInt int
  | VStr string
  | VRef addr
  | VCoroutine val
  | VFuture val

record obj =
  cls :: cname
  attrs :: "string \<rightharpoonup> val"
  items :: "val list option"

type_synonym heap = "addr \<rightharpoonup> obj"

text \<open>
  A batching-unit definition, the argument of \<^verbatim>\<open>LoaderDepend\<close>: a class (with the
  names that \<^verbatim>\<open>get_class_field_annotations\<close> reports for it) or a plain
  batch function.  \<^verbatim>\<open>Depends.dependency\<close> is optional in the source.
\<close>

datatype dep_kind = Class "string list" | Function

record dependency =
  dep_module :: string
  dep_name :: string
  kind :: dep_kind

datatype param_default = Depends "dependency option" | OtherDefault

record loader =
  loader_id :: nat
  loader_base :: dependency
  loader_fields :: "(string \<times> val) list"

datatype error =
    ResolverTargetAttrNotFound string
  | LoaderFieldNotProvidedError string
  | MissingAnnotationError string
  | AttributeError string

text \<open>
  The observation log: the calls the engine makes into user code and the writes it
  performs, in the order in which they happen.  It is not part of the Python state.
  \<open>Build\<close> (cache key, identity of the new instance) is logged where a loader
  instance is constructed, \<open>Inject\<close> where
  \<^verbatim>\<open>params[k] = loader\<close> binds it, \<open>Invoke\<close> where \<^verbatim>\<open>method(**params)\<close> runs,
  \<open>SetAttr\<close> at \<^verbatim>\<open>target.__setattr__\<close> and \<open>PostCall\<close> at \<^verbatim>\<open>post_method()\<close>.
\<close>

datatype event =
    Build string nat
  | Inject string dependency loader
  | Invoke val string
  | SetAttr val string val
  | PostCall val string

text \<open>
  User code.  A resolver method has its signature (\<open>params\<close>, in order, without
  the receiver), the keys of its \<^verbatim>\<open>__annotations__\<close> and a body, which gets the
  receiver, the keyword arguments and the heap, and returns a value and the heap it
  leaves.  A post method takes the receiver only.
\<close>

record resolver_method =
  params :: "(string \<times> param_default) list"
  annotations :: "string list"
  body :: "val \<Rightarrow> (string \<times> loader) list \<Rightarrow> heap \<Rightarrow> val \<times> heap"

record post_method =
  post_body :: "val \<Rightarrow> heap \<Rightarrow> val \<times> heap"

text \<open>
  What the modules \<^verbatim>\<open>core\<close> and \<^verbatim>\<open>constant\<close> supply: for every class whether
  \<^verbatim>\<open>core.is_acceptable_type\<close> holds of its instances, the resolver methods in the
  order of \<^verbatim>\<open>core.iter_over_object_resolvers\<close>, the post methods in the order of
  \<^verbatim>\<open>core.iter_over_object_post_methods\<close>, and the two prefixes.
\<close>

record class_def =
  acceptable :: bool
  resolvers :: "(string \<times> resolver_method) list"
  post_methods :: "(string \<times> post_method) list"

record env =
  PREFIX :: string
  POST_PREFIX :: string
  class_table :: "cname \<Rightarrow> class_def"

section \<open>The Resolver\<close>

text \<open>
  \<^verbatim>\<open>self.ctx\<close> is a \<^verbatim>\<open>ContextVar\<close> whose default is one dict, made in
  \<^verbatim>\<open>__init__\<close>: \<^verbatim>\<open>get()\<close> returns that dict in every context, \<^verbatim>\<open>exec_method\<close>
  mutates it in place and \<^verbatim>\<open>set()\<close> stores the same dict again.  The cache is thus
  a component of the Resolver, as are the configuration table and the strict mode.
  The \<open>world\<close> is everything else a call can change: the heap, the supply of
  identities for new loader instances, and the observation log.
\<close>

record Resolver =
  ctx :: "string \<rightharpoonup> loader"
  loader_filters_ctx :: "dependency \<rightharpoonup> (string \<rightharpoonup> val)"
  ensure_type :: bool

record world =
  heap :: heap
  next_id :: nat
  trace :: "event list"

type_synonym 'a outcome = "(error + 'a) \<times> Resolver \<times> world"

text \<open>\<^verbatim>\<open>Resolver.__init__\<close>: a new, empty cache; \<^verbatim>\<open>loader_filters or {}\<close>.\<close>

definition Resolver_init :: "(dependency \<rightharpoonup> (string \<rightharpoonup> val)) option \<Rightarrow> bool \<Rightarrow> Resolver" where
  "Resolver_init loader_filters et =
     \<lparr>ctx = Map.empty,
      loader_filters_ctx = (case loader_filters of None \<Rightarrow> Map.empty | Some f \<Rightarrow> f),
      ensure_type = et\<rparr>"

text \<open>\<^verbatim>\<open>s.replace(old, '')\<close>: every occurrence of \<open>old\<close> is deleted, left to right.\<close>

function str_replace_del :: "string \<Rightarrow> string \<Rightarrow> string" where
  "str_replace_del old [] = []"
| "str_replace_del old (c # cs) =
     (if old \<noteq> [] \<and> take (length old) (c # cs) = old
      then str_replace_del old (drop (length old) (c # cs))
      else c # str_replace_del old cs)"
  by pat_completeness auto
termination
  by (relation "measure (\<lambda>(old, s). length s)") (auto simp: neq_Nil_conv)

text \<open>\<^verbatim>\<open>f'{dependency.__module__}.{dependency.__name__}'\<close>\<close>

definition cache_key :: "dependency \<Rightarrow> string" where
  "cache_key Base = dep_module Base @ ''.'' @ dep_name Base"

text \<open>
  The loop over \<^verbatim>\<open>get_class_field_annotations(Base)\<close>: each field is read from the
  configuration of the class and set on the instance; a missing key raises.
\<close>

fun set_fields :: "string \<Rightarrow> (string \<rightharpoonup> val) \<Rightarrow> string list \<Rightarrow> loader \<Rightarrow> error + loader" where
  "set_fields key filter_config [] ld = Inr ld"
| "set_fields key filter_config (field # fs) ld =
     (case filter_config field of
        None \<Rightarrow> Inl (LoaderFieldNotProvidedError (key @ ''.'' @ field @ '' not found in Resolver()''))
      | Some v \<Rightarrow> set_fields key filter_config fs (ld\<lparr>loader_fields := loader_fields ld @ [(field, v)]\<rparr>))"

text \<open>
  The branch taken on a cache miss: \<^verbatim>\<open>Base()\<close> and the configuration loop for a
  class, \<^verbatim>\<open>DataLoader(batch_load_fn=Base)\<close> for a function.  Each construction takes
  a new identity.
\<close>

definition create_loader :: "Resolver \<Rightarrow> dependency \<Rightarrow> world \<Rightarrow> (error + loader) \<times> world" where
  "create_loader self Base w =
     (let fresh = \<lparr>loader_id = next_id w, loader_base = Base, loader_fields = []\<rparr>;
          w' = w\<lparr>next_id := Suc (next_id w), trace := trace w @ [Build (cache_key Base) (next_id w)]\<rparr>
      in case kind Base of
           Class fnames \<Rightarrow>
             (let filter_config = (case loader_filters_ctx self Base of None \<Rightarrow> Map.empty | Some c \<Rightarrow> c)
              in (set_fields (cache_key Base) filter_config fnames fresh, w'))
         | Function \<Rightarrow> (Inr fresh, w'))"

text \<open>
  The loop of \<^verbatim>\<open>exec_method\<close> over the parameters of the signature.  A cached
  instance is a loader object and hence true in \<^verbatim>\<open>if hit:\<close>.  A dependency that is
  \<^verbatim>\<open>None\<close> has no \<^verbatim>\<open>__module__\<close>.
\<close>

fun exec_params :: "(string \<times> param_default) list \<Rightarrow> (string \<times> loader) list \<Rightarrow> Resolver \<Rightarrow> world
    \<Rightarrow> (string \<times> loader) list outcome" where
  "exec_params [] acc self w = (Inr acc, self, w)"
| "exec_params ((k, OtherDefault) # ps) acc self w = exec_params ps acc self w"
| "exec_params ((k, Depends None) # ps) acc self w =
     (Inl (AttributeError ''__module__''), self, w)"
| "exec_params ((k, Depends (Some Base)) # ps) acc self w =
     (case ctx self (cache_key Base) of
        Some hit \<Rightarrow>
          exec_params ps (acc @ [(k, hit)]) self (w\<lparr>trace := trace w @ [Inject k Base hit]\<rparr>)
      | None \<Rightarrow>
          (case create_loader self Base w of
             (Inl e, w') \<Rightarrow> (Inl e, self, w')
           | (Inr ld, w') \<Rightarrow>
               exec_params ps (acc @ [(k, ld)])
                 (self\<lparr>ctx := (ctx self)(cache_key Base \<mapsto> ld)\<rparr>)
                 (w'\<lparr>trace := trace w' @ [Inject k Base ld]\<rparr>)))"

definition exec_method :: "Resolver \<Rightarrow> val \<Rightarrow> string \<Rightarrow> resolver_method \<Rightarrow> world \<Rightarrow> val outcome" where
  "exec_method self target field m w =
     (case exec_params (params m) [] self w of
        (Inl e, self', w') \<Rightarrow> (Inl e, self', w')
      | (Inr ps, self', w') \<Rightarrow>
          (case body m target ps (heap w') of
             (v, h') \<Rightarrow> (Inr v, self', w'\<lparr>heap := h', trace := trace w' @ [Invoke target field]\<rparr>)))"

text \<open>
  What Python reads off an object: its class, \<^verbatim>\<open>isinstance(target, (list, tuple))\<close>
  and the elements, the three functions of \<^verbatim>\<open>core\<close>,
  \<^verbatim>\<open>target.__getattribute__\<close> for a resolver and for a post method, and
  \<^verbatim>\<open>hasattr\<close> (an instance attribute or a method of the class).  A value that is
  no reference to a heap object has no class, no elements and no attributes.
\<close>

definition get_obj :: "heap \<Rightarrow> val \<Rightarrow> obj option" where
  "get_obj h target = (case target of VRef a \<Rightarrow> h a | _ \<Rightarrow> None)"

definition class_of :: "env \<Rightarrow> heap \<Rightarrow> val \<Rightarrow> class_def option" where
  "class_of P h target = map_option (\<lambda>ob. class_table P (cls ob)) (get_obj h target)"

definition isinstance_list_tuple :: "heap \<Rightarrow> val \<Rightarrow> bool" where
  "isinstance_list_tuple h target =
     (case get_obj h target of None \<Rightarrow> False | Some ob \<Rightarrow> items ob \<noteq> None)"

definition elements :: "heap \<Rightarrow> val \<Rightarrow> val list" where
  "elements h target =
     (case get_obj h target of
        None \<Rightarrow> []
      | Some ob \<Rightarrow> (case items ob of None \<Rightarrow> [] | Some xs \<Rightarrow> xs))"

definition is_acceptable_type :: "env \<Rightarrow> heap \<Rightarrow> val \<Rightarrow> bool" where
  "is_acceptable_type P h target =
     (case class_of P h target of None \<Rightarrow> False | Some c \<Rightarrow> acceptable c)"

definition iter_over_object_resolvers :: "env \<Rightarrow> heap \<Rightarrow> val \<Rightarrow> string list" where
  "iter_over_object_resolvers P h target =
     (case class_of P h target of None \<Rightarrow> [] | Some c \<Rightarrow> map fst (resolvers c))"

definition iter_over_object_post_methods :: "env \<Rightarrow> heap \<Rightarrow> val \<Rightarrow> string list" where
  "iter_over_object_post_methods P h target =
     (case class_of P h target of None \<Rightarrow> [] | Some c \<Rightarrow> map fst (post_methods c))"

definition get_resolver :: "env \<Rightarrow> heap \<Rightarrow> val \<Rightarrow> string \<Rightarrow> resolver_method option" where
  "get_resolver P h target field =
     (case class_of P h target of None \<Rightarrow> None | Some c \<Rightarrow> map_of (resolvers c) field)"

definition get_post_method :: "env \<Rightarrow> heap \<Rightarrow> val \<Rightarrow> string \<Rightarrow> post_method option" where
  "get_post_method P h target post_key =
     (case class_of P h target of None \<Rightarrow> None | Some c \<Rightarrow> map_of (post_methods c) post_key)"

definition hasattr :: "env \<Rightarrow> heap \<Rightarrow> val \<Rightarrow> string \<Rightarrow> bool" where
  "hasattr P h target name =
     (case get_obj h target of
        None \<Rightarrow> False
      | Some ob \<Rightarrow>
          attrs ob name \<noteq> None
          \<or> name \<in> set (map fst (resolvers (class_table P (cls ob))))
          \<or> name \<in> set (map fst (post_methods (class_table P (cls ob)))))"

text \<open>\<^verbatim>\<open>target.__setattr__(name, v)\<close>\<close>

definition setattr :: "val \<Rightarrow> string \<Rightarrow> val \<Rightarrow> world \<Rightarrow> world" where
  "setattr target name v w =
     (case target of
        VRef a \<Rightarrow>
          (case heap w a of
             None \<Rightarrow> w
           | Some ob \<Rightarrow>
               w\<lparr>heap := (heap w)(a \<mapsto> ob\<lparr>attrs := (attrs ob)(name \<mapsto> v)\<rparr>),
                 trace := trace w @ [SetAttr target name v]\<rparr>)
      | _ \<Rightarrow> w)"

text \<open>
  \<^verbatim>\<open>iscoroutine(val) or asyncio.isfuture(val)\<close>, one \<^verbatim>\<open>await val\<close>, and the loop
  \<^verbatim>\<open>while iscoroutine(val) or asyncio.isfuture(val): val = await val\<close>.
\<close>

fun is_awaitable :: "val \<Rightarrow> bool" where
  "is_awaitable (VCoroutine v) = True"
| "is_awaitable (VFuture v) = True"
| "is_awaitable v = False"

fun await_once :: "val \<Rightarrow> val" where
  "await_once (VCoroutine v) = v"
| "await_once (VFuture v) = v"
| "await_once v = v"

function await_all :: "val \<Rightarrow> val" where
  "await_all v = (if is_awaitable v then await_all (await_once v) else v)"
  by pat_completeness auto
termination
  by (relation "measure size") (auto elim: is_awaitable.elims)

declare await_all.simps [simp del]

text \<open>
  \<^verbatim>\<open>await asyncio.gather(*[f(x) for x in xs])\<close>, on the one cooperative scheduler of
  the engine: the awaitables are run one after the other in the order of the list,
  the first one that raises ends the gather with its exception, and the results are
  dropped.  \<open>None\<close> stands for a call that does not return.  The state returned with
  an exception is the state at the raise.
\<close>

fun gather :: "('x \<Rightarrow> Resolver \<Rightarrow> world \<Rightarrow> 'r outcome option) \<Rightarrow> 'x list \<Rightarrow> Resolver \<Rightarrow> world
    \<Rightarrow> unit outcome option" where
  "gather f [] self w = Some (Inr (), self, w)"
| "gather f (x # xs) self w =
     (case f x self w of
        None \<Rightarrow> None
      | Some (Inl e, self', w') \<Rightarrow> Some (Inl e, self', w')
      | Some (Inr r, self', w') \<Rightarrow> gather f xs self' w')"

text \<open>
  \<^verbatim>\<open>resolve_obj\<close>, with the recursive call to \<^verbatim>\<open>self.resolve\<close> as the parameter
  \<open>rec\<close>.
\<close>

definition resolve_obj_step :: "(Resolver \<Rightarrow> val \<Rightarrow> world \<Rightarrow> val outcome option) \<Rightarrow> env \<Rightarrow> Resolver
    \<Rightarrow> val \<Rightarrow> string \<Rightarrow> world \<Rightarrow> unit outcome option" where
  "resolve_obj_step rec P self target field w =
     (case get_resolver P (heap w) target field of
        None \<Rightarrow> Some (Inl (AttributeError field), self, w)
      | Some item \<Rightarrow>
     (let target_attr_name = str_replace_del (PREFIX P) field in
      case exec_method self target field item w of
        (Inl e, self1, w1) \<Rightarrow> Some (Inl e, self1, w1)
      | (Inr v, self1, w1) \<Rightarrow>
          if \<not> hasattr P (heap w1) target target_attr_name
          then Some (Inl (ResolverTargetAttrNotFound (''attribute '' @ target_attr_name @ '' not found'')),
                     self1, w1)
          else if ensure_type self1 \<and> annotations item = []
          then Some (Inl (MissingAnnotationError (field @ '': return annotation is required'')), self1, w1)
          else
            (case rec self1 (await_all v) w1 of
               None \<Rightarrow> None
             | Some (Inl e, self2, w2) \<Rightarrow> Some (Inl e, self2, w2)
             | Some (Inr v', self2, w2) \<Rightarrow>
                 Some (Inr (), self2, setattr target target_attr_name v' w2))))"

text \<open>The loop over \<^verbatim>\<open>core.iter_over_object_post_methods(target)\<close>.\<close>

fun run_post_methods :: "env \<Rightarrow> val \<Rightarrow> string list \<Rightarrow> Resolver \<Rightarrow> world \<Rightarrow> unit outcome" where
  "run_post_methods P target [] self w = (Inr (), self, w)"
| "run_post_methods P target (post_key # rest) self w =
     (let post_attr_name = str_replace_del (POST_PREFIX P) post_key in
      if \<not> hasattr P (heap w) target post_attr_name
      then (Inl (ResolverTargetAttrNotFound
                  (''fail to run '' @ post_key @ ''(), attribute '' @ post_attr_name @ '' not found'')),
            self, w)
      else (case get_post_method P (heap w) target post_key of
              None \<Rightarrow> (Inl (AttributeError post_key), self, w)
            | Some pm \<Rightarrow>
                (case post_body pm target (heap w) of
                   (r, h') \<Rightarrow>
                     run_post_methods P target rest self
                       (w\<lparr>heap := h', trace := trace w @ [PostCall target post_key]\<rparr>))))"

text \<open>
  \<^verbatim>\<open>resolve\<close>, with its recursive call as the parameter \<open>rec\<close>: the elements of a
  list or tuple, then, on the same target, the resolver fields and the post methods
  of an acceptable object, then \<^verbatim>\<open>return target\<close>.
\<close>

definition resolve_step :: "(Resolver \<Rightarrow> val \<Rightarrow> world \<Rightarrow> val outcome option) \<Rightarrow> env \<Rightarrow> Resolver
    \<Rightarrow> val \<Rightarrow> world \<Rightarrow> val outcome option" where
  "resolve_step rec P self target w =
     (case (if isinstance_list_tuple (heap w) target
            then gather (\<lambda>t s. rec s t) (elements (heap w) target) self w
            else Some (Inr (), self, w)) of
        None \<Rightarrow> None
      | Some (Inl e, self1, w1) \<Rightarrow> Some (Inl e, self1, w1)
      | Some (Inr u, self1, w1) \<Rightarrow>
          if is_acceptable_type P (heap w1) target
          then
            (case gather (\<lambda>field s. resolve_obj_step rec P s target field)
                    (iter_over_object_resolvers P (heap w1) target) self1 w1 of
               None \<Rightarrow> None
             | Some (Inl e, self2, w2) \<Rightarrow> Some (Inl e, self2, w2)
             | Some (Inr u', self2, w2) \<Rightarrow>
                 (case run_post_methods P target (iter_over_object_post_methods P (heap w2) target)
                         self2 w2 of
                    (Inl e, self3, w3) \<Rightarrow> Some (Inl e, self3, w3)
                  | (Inr u'', self3, w3) \<Rightarrow> Some (Inr target, self3, w3)))
          else Some (Inr target, self1, w1))"

text \<open>
  The recursion of \<^verbatim>\<open>resolve\<close> through \<^verbatim>\<open>resolve_obj\<close> need not end (a resolver
  may return its own receiver), so the depth of nested \<^verbatim>\<open>resolve\<close> calls is bounded
  by the first argument; \<open>None\<close> is a call that needs more.
\<close>

primrec resolve :: "nat \<Rightarrow> env \<Rightarrow> Resolver \<Rightarrow> val \<Rightarrow> world \<Rightarrow> val outcome option" where
  "resolve 0 P = (\<lambda>self target w. None)"
| "resolve (Suc n) P = resolve_step (resolve n P) P"

definition resolve_obj :: "nat \<Rightarrow> env \<Rightarrow> Resolver \<Rightarrow> val \<Rightarrow> string \<Rightarrow> world \<Rightarrow> unit outcome option" where
  "resolve_obj n P = resolve_obj_step (resolve n P) P"

section \<open>Observations on the log and the cache\<close>

text \<open>
  The cache keys of the loader instances constructed, in the order of construction.
\<close>

fun built_keys :: "event list \<Rightarrow> string list" where
  "built_keys [] = []"
| "built_keys (Build k i # t) = k # built_keys t"
| "built_keys (e # t) = built_keys t"

text \<open>
  The invariant that relates the cache of a Resolver to the log: an entry is stored
  under the key of its definition; every instance bound to a parameter is the entry
  of the key of the declared definition; no key was constructed twice; every entry
  was constructed; and, unless the last construction raised, every construction was
  stored.
\<close>

definition cache_inv :: "bool \<Rightarrow> Resolver \<Rightarrow> world \<Rightarrow> bool" where
  "cache_inv ok self w \<longleftrightarrow>
     (\<forall>k l. ctx self k = Some l \<longrightarrow> cache_key (loader_base l) = k) \<and>
     (\<forall>k d l. Inject k d l \<in> set (trace w) \<longrightarrow> ctx self (cache_key d) = Some l) \<and>
     distinct (built_keys (trace w)) \<and>
     dom (ctx self) \<subseteq> set (built_keys (trace w)) \<and>
     (ok \<longrightarrow> set (built_keys (trace w)) \<subseteq> dom (ctx self))"

text \<open>
  What a call may do to the Resolver and the log: the cache gets new entries and
  keeps the old ones, the configuration stays, the log is extended.
\<close>

definition grows :: "Resolver \<times> world \<Rightarrow> Resolver \<times> world \<Rightarrow> bool" where
  "grows st st' \<longleftrightarrow>
     ctx (fst st) \<subseteq>\<^sub>m ctx (fst st')
     \<and> loader_filters_ctx (fst st') = loader_filters_ctx (fst st)
     \<and> ensure_type (fst st') = ensure_type (fst st)
     \<and> (\<exists>t. trace (snd st') = trace (snd st) @ t)"

definition preserves :: "(Resolver \<Rightarrow> world \<Rightarrow> 'a outcome option) \<Rightarrow> bool" where
  "preserves c \<longleftrightarrow>
     (\<forall>self w r self' w'. c self w = Some (r, self', w') \<longrightarrow>
        grows (self, w) (self', w') \<and> (cache_inv True self w \<longrightarrow> cache_inv (\<not> isl r) self' w'))"

text \<open>
  The effect of one post method on the heap: what its call leaves, whatever it
  returns.
\<close>

definition post_effect :: "env \<Rightarrow> val \<Rightarrow> string \<Rightarrow> heap \<Rightarrow> heap" where
  "post_effect P target post_key h =
     (case get_post_method P h target post_key of
        None \<Rightarrow> h
      | Some pm \<Rightarrow> snd (post_body pm target h))"

section \<open>Example programs\<close>

text \<open>
  The classes of the test suite: a \<open>Student\<close> whose \<open>books\<close> come from a loader
  class, resolved from a future; the loader class declares one configuration field.
  The heap holds a list of two students and the tuple of books the resolver returns.
\<close>

definition BookLoader :: dependency where
  "BookLoader = \<lparr>dep_module = ''tests.loaders'', dep_name = ''BookLoader'', kind = Class [''limit'']\<rparr>"

definition resolve_books :: resolver_method where
  "resolve_books =
     \<lparr>params = [(''loader'', Depends (Some BookLoader))], annotations = [''loader''],
      body = (\<lambda>self ps h. (VFuture (VCoroutine (VRef 10)), h))\<rparr>"

definition post_count :: post_method where
  "post_count = \<lparr>post_body = (\<lambda>self h. (VCoroutine VNone, h))\<rparr>"

definition Student :: class_def where
  "Student =
     \<lparr>acceptable = True, resolvers = [(''resolve_books'', resolve_books)],
      post_methods = [(''post_count'', post_count)]\<rparr>"

definition Plain :: class_def where
  "Plain = \<lparr>acceptable = False, resolvers = [], post_methods = []\<rparr>"

text \<open>
  \<open>Orphan\<close> has a resolver \<open>resolve_missing\<close> and its instance no attribute
  \<open>missing\<close>.  \<open>Blog\<close> has a post method for its field \<open>blog_post_count\<close>, whose
  name contains the prefix of post methods a second time.
\<close>

definition Orphan :: class_def where
  "Orphan =
     \<lparr>acceptable = True, resolvers = [(''resolve_missing'', resolve_books)], post_methods = []\<rparr>"

definition Blog :: class_def where
  "Blog =
     \<lparr>acceptable = True, resolvers = [],
      post_methods = [(''post_blog_post_count'', post_count)]\<rparr>"

text \<open>
  \<open>Reader\<close> uses two loaders of the same name from different modules, the second
  one a plain batch function.  \<open>Roster\<close> is a list class that is acceptable as well,
  with a resolver field and a post method of its own.
\<close>

definition NoteLoader :: dependency where
  "NoteLoader = \<lparr>dep_module = ''other.loaders'', dep_name = ''BookLoader'', kind = Function\<rparr>"

definition resolve_notes :: resolver_method where
  "resolve_notes =
     \<lparr>params = [(''loader'', Depends (Some NoteLoader))], annotations = [''return''],
      body = (\<lambda>self ps h. (VInt 0, h))\<rparr>"

definition Reader :: class_def where
  "Reader =
     \<lparr>acceptable = True,
      resolvers = [(''resolve_books'', resolve_books), (''resolve_notes'', resolve_notes)],
      post_methods = []\<rparr>"

definition resolve_size :: resolver_method where
  "resolve_size = \<lparr>params = [], annotations = [''return''], body = (\<lambda>self ps h. (VInt 1, h))\<rparr>"

definition Roster :: class_def where
  "Roster =
     \<lparr>acceptable = True, resolvers = [(''resolve_size'', resolve_size)],
      post_methods = [(''post_count'', post_count)]\<rparr>"

definition P0 :: env where
  "P0 = \<lparr>PREFIX = ''resolve_'', POST_PREFIX = ''post_'',
          class_table = (\<lambda>c. if c = ''Student'' then Student
                             else if c = ''Orphan'' then Orphan
                             else if c = ''Blog'' then Blog
                             else if c = ''Reader'' then Reader
                             else if c = ''Roster'' then Roster
                             else Plain)\<rparr>"

definition h0 :: heap where
  "h0 = [0 \<mapsto> \<lparr>cls = ''list'', attrs = Map.empty, items = Some [VRef 1, VRef 2]\<rparr>,
         1 \<mapsto> \<lparr>cls = ''Student'', attrs = [''books'' \<mapsto> VNone, ''count'' \<mapsto> VInt 0], items = None\<rparr>,
         2 \<mapsto> \<lparr>cls = ''Student'', attrs = [''books'' \<mapsto> VNone, ''count'' \<mapsto> VInt 0], items = None\<rparr>,
         3 \<mapsto> \<lparr>cls = ''Orphan'', attrs = [''name'' \<mapsto> VStr ''x''], items = None\<rparr>,
         4 \<mapsto> \<lparr>cls = ''Blog'', attrs = [''blog_post_count'' \<mapsto> VInt 0], items = None\<rparr>,
         5 \<mapsto> \<lparr>cls = ''Blog'', attrs = [''blog_count'' \<mapsto> VInt 0], items = None\<rparr>,
         6 \<mapsto> \<lparr>cls = ''Reader'', attrs = [''books'' \<mapsto> VNone, ''notes'' \<mapsto> VNone], items = None\<rparr>,
         7 \<mapsto> \<lparr>cls = ''list'', attrs = Map.empty, items = Some [VRef 1, VRef 6]\<rparr>,
         8 \<mapsto> \<lparr>cls = ''Roster'', attrs = [''size'' \<mapsto> VNone, ''count'' \<mapsto> VInt 0],
                items = Some [VRef 1]\<rparr>,
         10 \<mapsto> \<lparr>cls = ''tuple'', attrs = Map.empty, items = Some [VInt 7]\<rparr>]"

definition w0 :: world where
  "w0 = \<lparr>heap = h0, next_id = 0, trace = []\<rparr>"

definition r0 :: Resolver where
  "r0 = Resolver_init (Some [BookLoader \<mapsto> [''limit'' \<mapsto> VInt 3]]) False"

definition r_strict :: Resolver where
  "r_strict = Resolver_init (Some [BookLoader \<mapsto> [''limit'' \<mapsto> VInt 3]]) True"

section \<open>Unfolding the model on concrete inputs\<close>

lemmas model_defs =
  resolve_step_def resolve_obj_step_def exec_method_def create_loader_def
  get_obj_def class_of_def isinstance_list_tuple_def elements_def is_acceptable_type_def
  iter_over_object_resolvers_def iter_over_object_post_methods_def get_resolver_def
  get_post_method_def hasattr_def setattr_def cache_key_def Resolver_init_def Let_def

lemmas ex_defs =
  P0_def r0_def r_strict_def w0_def h0_def BookLoader_def resolve_books_def post_count_def
  Student_def Plain_def Orphan_def Blog_def NoteLoader_def resolve_notes_def Reader_def
  resolve_size_def Roster_def

section \<open>Basic facts\<close>

lemma await_all_simps [simp]:
  "await_all (VCoroutine v) = await_all v"
  "await_all (VFuture v) = await_all v"
  "await_all VNone = VNone"
  "await_all (VInt i) = VInt i"
  "await_all (VStr s) = VStr s"
  "await_all (VRef a) = VRef a"
  by (simp_all add: await_all.simps)

lemma await_all_not_awaitable: "\<not> is_awaitable (await_all v)"
  by (induction v) auto

lemma await_all_iterate:
  "\<exists>k. await_all v = (await_once ^^ k) v \<and> (\<forall>j<k. is_awaitable ((await_once ^^ j) v))"
proof (induction v)
  case (VCoroutine v)
  then obtain k where k: "await_all v = (await_once ^^ k) v"
    "\<forall>j<k. is_awaitable ((await_once ^^ j) v)" by blast
  have "await_all (VCoroutine v) = (await_once ^^ Suc k) (VCoroutine v)"
    using k(1) by (simp add: funpow_swap1)
  moreover have "\<forall>j<Suc k. is_awaitable ((await_once ^^ j) (VCoroutine v))"
  proof (intro allI impI)
    fix j assume "j < Suc k"
    then show "is_awaitable ((await_once ^^ j) (VCoroutine v))"
      using k(2) by (cases j) (auto simp: funpow_swap1)
  qed
  ultimately show ?case by blast
next
  case (VFuture v)
  then obtain k where k: "await_all v = (await_once ^^ k) v"
    "\<forall>j<k. is_awaitable ((await_once ^^ j) v)" by blast
  have "await_all (VFuture v) = (await_once ^^ Suc k) (VFuture v)"
    using k(1) by (simp add: funpow_swap1)
  moreover have "\<forall>j<Suc k. is_awaitable ((await_once ^^ j) (VFuture v))"
  proof (intro allI impI)
    fix j assume "j < Suc k"
    then show "is_awaitable ((await_once ^^ j) (VFuture v))"
      using k(2) by (cases j) (auto simp: funpow_swap1)
  qed
  ultimately show ?case by blast
qed (auto intro: exI[of _ 0])

lemma resolve_result_is_target:
  "resolve n P self target w = Some (Inr v, self', w') \<Longrightarrow> v = target"
  by (cases n) (auto simp: resolve_step_def split: if_splits option.splits sum.splits prod.splits)

lemma setattr_attrs:
  "get_obj (heap w) target = Some ob \<Longrightarrow>
   get_obj (heap (setattr target name v w)) target = Some (ob\<lparr>attrs := (attrs ob)(name \<mapsto> v)\<rparr>)"
  by (auto simp: get_obj_def setattr_def split: val.splits)

section \<open>The value returned by resolve\<close>

text \<open>
  C8.  Whenever \<open>resolve\<close> returns, it returns the very value it was given: for an
  object this is the same reference, and all changes are changes of the heap.  A
  target that is no list or tuple (or is an empty one) and that is not acceptable (or
  whose class has neither resolver fields nor post methods) is returned at once, with
  the cache, the heap and the log as they were.
\<close>

theorem resolve_returns_target:
  "(resolve n P self target w = Some (Inr v, self', w') \<longrightarrow> v = target) \<and>
   ((\<not> isinstance_list_tuple (heap w) target \<or> elements (heap w) target = []) \<and>
    (\<not> is_acceptable_type P (heap w) target \<or>
       (iter_over_object_resolvers P (heap w) target = [] \<and>
        iter_over_object_post_methods P (heap w) target = []))
    \<longrightarrow> resolve (Suc n) P self target w = Some (Inr target, self, w))"
proof (intro conjI impI)
  assume "resolve n P self target w = Some (Inr v, self', w')"
  then show "v = target"
    by (rule resolve_result_is_target)
next
  assume "(\<not> isinstance_list_tuple (heap w) target \<or> elements (heap w) target = []) \<and>
    (\<not> is_acceptable_type P (heap w) target \<or>
       (iter_over_object_resolvers P (heap w) target = [] \<and>
        iter_over_object_post_methods P (heap w) target = []))"
  then show "resolve (Suc n) P self target w = Some (Inr target, self, w)"
    by (auto simp: resolve_step_def)
qed

theorem resolve_returns_target_witness:
  "(\<exists>s' w'. resolve (Suc (Suc (Suc (Suc 0)))) P0 r0 (VRef 0) w0 = Some (Inr (VRef 0), s', w')) \<and>
   resolve (Suc 0) P0 r0 (VInt 5) w0 = Some (Inr (VInt 5), r0, w0)"
proof -
  have "\<exists>v s' w'. resolve (Suc (Suc (Suc (Suc 0)))) P0 r0 (VRef 0) w0 = Some (Inr v, s', w')"
    by (simp add: model_defs ex_defs)
  then obtain v s' w'
    where e: "resolve (Suc (Suc (Suc (Suc 0)))) P0 r0 (VRef 0) w0 = Some (Inr v, s', w')"
    by blast
  have "v = VRef 0"
    using resolve_returns_target [of "Suc (Suc (Suc (Suc 0)))" P0 r0 "VRef 0" w0 v s' w'] e by blast
  moreover have "resolve (Suc 0) P0 r0 (VInt 5) w0 = Some (Inr (VInt 5), r0, w0)"
    using resolve_returns_target [where n = 0 and P = P0 and self = r0 and target = "VInt 5" and w = w0]
    by (simp add: isinstance_list_tuple_def is_acceptable_type_def class_of_def get_obj_def)
  ultimately show ?thesis using e by blast
qed

section \<open>Awaiting the value of a resolver\<close>

text \<open>
  C4.  When the resolver of a field has been invoked and returned \<open>v\<close>, the checks
  of the step pass and the nested \<open>resolve\<close> of the awaited value returns, the step
  returns too: the value it handed to \<open>resolve\<close> and then wrote to the target
  attribute is \<open>await_all v\<close>, which is reached from \<open>v\<close> by awaiting as long as the
  value is a coroutine or a future and is itself neither.
\<close>

theorem resolve_obj_awaits_and_writes:
  assumes "get_resolver P (heap w) target field = Some item"
    and "exec_method self target field item w = (Inr v, self1, w1)"
    and "hasattr P (heap w1) target (str_replace_del (PREFIX P) field)"
    and "\<not> (ensure_type self1 \<and> annotations item = [])"
    and "resolve n P self1 (await_all v) w1 = Some (Inr v', self2, w2)"
    and "get_obj (heap w2) target = Some ob"
  shows "\<not> is_awaitable (await_all v)
    \<and> (\<exists>k. await_all v = (await_once ^^ k) v \<and> (\<forall>j<k. is_awaitable ((await_once ^^ j) v)))
    \<and> resolve_obj n P self target field w =
        Some (Inr (), self2, setattr target (str_replace_del (PREFIX P) field) (await_all v) w2)
    \<and> get_obj (heap (setattr target (str_replace_del (PREFIX P) field) (await_all v) w2)) target =
        Some (ob\<lparr>attrs := (attrs ob)(str_replace_del (PREFIX P) field \<mapsto> await_all v)\<rparr>)"
proof -
  have v': "v' = await_all v"
    using assms(5) by (rule resolve_result_is_target)
  have "resolve_obj n P self target field w =
        Some (Inr (), self2, setattr target (str_replace_del (PREFIX P) field) (await_all v) w2)"
    using assms(1-5) v' by (simp add: resolve_obj_def resolve_obj_step_def)
  then show ?thesis
    using await_all_not_awaitable await_all_iterate setattr_attrs [OF assms(6)] by blast
qed

theorem resolve_obj_awaits_and_writes_witness:
  "\<exists>s w ob. resolve_obj (Suc (Suc 0)) P0 r0 (VRef 1) ''resolve_books'' w0 = Some (Inr (), s, w)
     \<and> get_obj (heap w) (VRef 1) = Some ob \<and> attrs ob ''books'' = Some (VRef 10)"
proof -
  let ?e = "exec_method r0 (VRef 1) ''resolve_books'' resolve_books w0"
  let ?v = "VFuture (VCoroutine (VRef 10))"
  let ?r = "the (resolve (Suc (Suc 0)) P0 (fst (snd ?e)) (await_all ?v) (snd (snd ?e)))"
  have 1: "get_resolver P0 (heap w0) (VRef 1) ''resolve_books'' = Some resolve_books"
    by (simp add: model_defs ex_defs)
  have 2: "?e = (Inr ?v, fst (snd ?e), snd (snd ?e))"
    by (simp add: model_defs ex_defs)
  have 3: "hasattr P0 (heap (snd (snd ?e))) (VRef 1) (str_replace_del (PREFIX P0) ''resolve_books'')"
    by (simp add: model_defs ex_defs)
  have 4: "\<not> (ensure_type (fst (snd ?e)) \<and> annotations resolve_books = [])"
    by (simp add: model_defs ex_defs)
  have 5: "resolve (Suc (Suc 0)) P0 (fst (snd ?e)) (await_all ?v) (snd (snd ?e))
      = Some (Inr (VRef 10), fst (snd ?r), snd (snd ?r))"
    by (simp add: model_defs ex_defs)
  have 6: "get_obj (heap (snd (snd ?r))) (VRef 1) =
      Some \<lparr>cls = ''Student'', attrs = [''books'' \<mapsto> VNone, ''count'' \<mapsto> VInt 0], items = None\<rparr>"
    by (simp add: model_defs ex_defs)
  have 7: "str_replace_del (PREFIX P0) ''resolve_books'' = ''books''"
    by (simp add: ex_defs)
  show ?thesis
    using resolve_obj_awaits_and_writes [OF 1 2 3 4 5 6] unfolding 7 by simp
qed

section \<open>Provisioning a loader class\<close>

lemma set_fields_ok:
  "\<forall>f\<in>set fs. cfg f \<noteq> None \<Longrightarrow>
   set_fields key cfg fs ld = Inr (ld\<lparr>loader_fields := loader_fields ld @ map (\<lambda>f. (f, the (cfg f))) fs\<rparr>)"
  by (induction fs arbitrary: ld) auto

lemma set_fields_missing:
  "\<exists>f\<in>set fs. cfg f = None \<Longrightarrow>
   \<exists>f\<in>set fs. cfg f = None \<and>
     set_fields key cfg fs ld = Inl (LoaderFieldNotProvidedError (key @ ''.'' @ f @ '' not found in Resolver()''))"
proof (induction fs arbitrary: ld)
  case Nil
  then show ?case by simp
next
  case (Cons a fs)
  show ?case
  proof (cases "cfg a")
    case None
    then show ?thesis by auto
  next
    case (Some v)
    with Cons.prems have "\<exists>f\<in>set fs. cfg f = None" by auto
    from Cons.IH [OF this, of "ld\<lparr>loader_fields := loader_fields ld @ [(a, v)]\<rparr>"] Some
    show ?thesis by auto
  qed
qed

text \<open>
  C5.  When the loop of \<open>exec_method\<close> reaches a parameter whose dependency is a
  class and the cache has no instance for its key, the class is instantiated and the
  configuration of that class is read from \<open>loader_filters_ctx\<close>.  If every declared
  field has a value, the instance carries all of them, in the order of declaration,
  is stored in the cache and is bound to the parameter.  If a declared field has no
  value, \<open>exec_method\<close> raises \<open>LoaderFieldNotProvidedError\<close> for such a field:
  nothing is cached or bound, the heap is untouched and the resolver is not invoked,
  so no load can have been issued on the instance.
\<close>

theorem class_loader_provisioning:
  assumes "kind Base = Class fnames"
    and "ctx self (cache_key Base) = None"
    and "filter_config = (case loader_filters_ctx self Base of None \<Rightarrow> Map.empty | Some c \<Rightarrow> c)"
  shows
   "((\<forall>f\<in>set fnames. filter_config f \<noteq> None) \<longrightarrow>
       exec_params ((k, Depends (Some Base)) # ps) acc self w =
         (let ld = \<lparr>loader_id = next_id w, loader_base = Base,
                    loader_fields = map (\<lambda>f. (f, the (filter_config f))) fnames\<rparr>
          in exec_params ps (acc @ [(k, ld)]) (self\<lparr>ctx := (ctx self)(cache_key Base \<mapsto> ld)\<rparr>)
               (w\<lparr>next_id := Suc (next_id w),
                  trace := trace w @ [Build (cache_key Base) (next_id w), Inject k Base ld]\<rparr>)))
    \<and> ((\<exists>f\<in>set fnames. filter_config f = None) \<longrightarrow>
         (\<exists>f\<in>set fnames. filter_config f = None \<and>
            (\<forall>m. params m = (k, Depends (Some Base)) # ps \<longrightarrow>
               exec_method self target field m w =
                 (Inl (LoaderFieldNotProvidedError (cache_key Base @ ''.'' @ f @ '' not found in Resolver()'')),
                  self,
                  w\<lparr>next_id := Suc (next_id w), trace := trace w @ [Build (cache_key Base) (next_id w)]\<rparr>))))"
proof (intro conjI impI)
  assume ok: "\<forall>f\<in>set fnames. filter_config f \<noteq> None"
  show "exec_params ((k, Depends (Some Base)) # ps) acc self w =
         (let ld = \<lparr>loader_id = next_id w, loader_base = Base,
                    loader_fields = map (\<lambda>f. (f, the (filter_config f))) fnames\<rparr>
          in exec_params ps (acc @ [(k, ld)]) (self\<lparr>ctx := (ctx self)(cache_key Base \<mapsto> ld)\<rparr>)
               (w\<lparr>next_id := Suc (next_id w),
                  trace := trace w @ [Build (cache_key Base) (next_id w), Inject k Base ld]\<rparr>))"
    using assms(1,2) set_fields_ok [OF ok]
    by (simp add: create_loader_def assms(3) [symmetric] Let_def)
next
  assume "\<exists>f\<in>set fnames. filter_config f = None"
  from set_fields_missing [OF this, of "cache_key Base"
      "\<lparr>loader_id = next_id w, loader_base = Base, loader_fields = []\<rparr>"]
  obtain f where f: "f \<in> set fnames" "filter_config f = None"
    "set_fields (cache_key Base) filter_config fnames
       \<lparr>loader_id = next_id w, loader_base = Base, loader_fields = []\<rparr> =
     Inl (LoaderFieldNotProvidedError (cache_key Base @ ''.'' @ f @ '' not found in Resolver()''))"
    by blast
  have "\<forall>m. params m = (k, Depends (Some Base)) # ps \<longrightarrow>
               exec_method self target field m w =
                 (Inl (LoaderFieldNotProvidedError (cache_key Base @ ''.'' @ f @ '' not found in Resolver()'')),
                  self,
                  w\<lparr>next_id := Suc (next_id w), trace := trace w @ [Build (cache_key Base) (next_id w)]\<rparr>)"
    using assms(1,2) f(3)
    by (simp add: exec_method_def create_loader_def assms(3) [symmetric] Let_def)
  with f(1,2) show "\<exists>f\<in>set fnames. filter_config f = None \<and>
            (\<forall>m. params m = (k, Depends (Some Base)) # ps \<longrightarrow>
               exec_method self target field m w =
                 (Inl (LoaderFieldNotProvidedError (cache_key Base @ ''.'' @ f @ '' not found in Resolver()'')),
                  self,
                  w\<lparr>next_id := Suc (next_id w), trace := trace w @ [Build (cache_key Base) (next_id w)]\<rparr>))"
    by blast
qed


theorem class_loader_provisioning_witness:
  "exec_params [(''loader'', Depends (Some BookLoader))] [] r0 w0 =
     (Inr [(''loader'', \<lparr>loader_id = 0, loader_base = BookLoader, loader_fields = [(''limit'', VInt 3)]\<rparr>)],
      r0\<lparr>ctx := [''tests.loaders.BookLoader'' \<mapsto>
            \<lparr>loader_id = 0, loader_base = BookLoader, loader_fields = [(''limit'', VInt 3)]\<rparr>]\<rparr>,
      w0\<lparr>next_id := Suc 0,
         trace := [Build ''tests.loaders.BookLoader'' 0,
                   Inject ''loader'' BookLoader
                     \<lparr>loader_id = 0, loader_base = BookLoader, loader_fields = [(''limit'', VInt 3)]\<rparr>]\<rparr>)
   \<and> exec_method (Resolver_init None False) (VRef 1) ''resolve_books'' resolve_books w0 =
     (Inl (LoaderFieldNotProvidedError ''tests.loaders.BookLoader.limit not found in Resolver()''),
      Resolver_init None False,
      w0\<lparr>next_id := Suc 0, trace := [Build ''tests.loaders.BookLoader'' 0]\<rparr>)"
proof -
  have k: "kind BookLoader = Class [''limit'']" by (simp add: BookLoader_def)
  have key: "cache_key BookLoader = ''tests.loaders.BookLoader''"
    by (simp add: cache_key_def BookLoader_def)
  have a: "ctx r0 (cache_key BookLoader) = None" by (simp add: r0_def Resolver_init_def)
  have b: "[''limit'' \<mapsto> VInt 3] = (case loader_filters_ctx r0 BookLoader of None \<Rightarrow> Map.empty | Some c \<Rightarrow> c)"
    by (simp add: r0_def Resolver_init_def)
  have c: "ctx (Resolver_init None False) (cache_key BookLoader) = None"
    by (simp add: Resolver_init_def)
  have d: "Map.empty = (case loader_filters_ctx (Resolver_init None False) BookLoader of
                          None \<Rightarrow> Map.empty | Some c \<Rightarrow> c)"
    by (simp add: Resolver_init_def)
  have p: "params resolve_books = (''loader'', Depends (Some BookLoader)) # []"
    by (simp add: resolve_books_def)
  have "exec_params [(''loader'', Depends (Some BookLoader))] [] r0 w0 =
     (Inr [(''loader'', \<lparr>loader_id = 0, loader_base = BookLoader, loader_fields = [(''limit'', VInt 3)]\<rparr>)],
      r0\<lparr>ctx := [''tests.loaders.BookLoader'' \<mapsto>
            \<lparr>loader_id = 0, loader_base = BookLoader, loader_fields = [(''limit'', VInt 3)]\<rparr>]\<rparr>,
      w0\<lparr>next_id := Suc 0,
         trace := [Build ''tests.loaders.BookLoader'' 0,
                   Inject ''loader'' BookLoader
                     \<lparr>loader_id = 0, loader_base = BookLoader, loader_fields = [(''limit'', VInt 3)]\<rparr>]\<rparr>)"
    using class_loader_provisioning [OF k a b, where k = "''loader''" and ps = "[]" and acc = "[]"
        and w = w0, THEN conjunct1]
    by (simp add: key w0_def r0_def Resolver_init_def Let_def)
  moreover have "exec_method (Resolver_init None False) (VRef 1) ''resolve_books'' resolve_books w0 =
     (Inl (LoaderFieldNotProvidedError ''tests.loaders.BookLoader.limit not found in Resolver()''),
      Resolver_init None False,
      w0\<lparr>next_id := Suc 0, trace := [Build ''tests.loaders.BookLoader'' 0]\<rparr>)"
    using class_loader_provisioning [OF k c d, where k = "''loader''" and ps = "[]" and target = "VRef 1"
        and field = "''resolve_books''" and w = w0, THEN conjunct2] p
    by (simp add: key w0_def)
  ultimately show ?thesis by blast
qed

section \<open>The checks of a field step on concrete objects\<close>

text \<open>
  C7.  The strict mode tests \<^verbatim>\<open>not item.__annotations__\<close>, the annotations of the
  parameters included.  \<open>resolve_books\<close> annotates its parameter \<open>loader\<close> and has
  no \<open>return\<close> annotation; with \<open>ensure_type\<close> set, the step resolves the field and
  raises nothing, although the message of \<open>MissingAnnotationError\<close> reads
  "return annotation is required".
\<close>

theorem strict_mode_passes_without_return_annotation:
  "ensure_type r_strict \<and> ''return'' \<notin> set (annotations resolve_books)
   \<and> (\<exists>s w. resolve_obj (Suc (Suc 0)) P0 r_strict (VRef 1) ''resolve_books'' w0 = Some (Inr (), s, w))"
  by (simp add: resolve_obj_def model_defs ex_defs)

text \<open>
  C3.  \<open>resolve_obj\<close> calls \<open>exec_method\<close> before it tests \<open>hasattr\<close>.  For the
  object at address 3, which has no attribute \<open>missing\<close>, the step does raise
  \<open>ResolverTargetAttrNotFound\<close>, but only after the loader was built and cached and
  the resolver was invoked; and with no configuration for the loader class the
  error of the step is \<open>LoaderFieldNotProvidedError\<close> instead.
\<close>

theorem resolver_invoked_before_target_check:
  "(\<exists>s w. resolve_obj (Suc 0) P0 r0 (VRef 3) ''resolve_missing'' w0 =
            Some (Inl (ResolverTargetAttrNotFound ''attribute missing not found''), s, w)
          \<and> ctx s ''tests.loaders.BookLoader'' \<noteq> None
          \<and> trace w = [Build ''tests.loaders.BookLoader'' 0,
                        Inject ''loader'' BookLoader
                          \<lparr>loader_id = 0, loader_base = BookLoader, loader_fields = [(''limit'', VInt 3)]\<rparr>,
                        Invoke (VRef 3) ''resolve_missing''])
   \<and> (\<exists>s w. resolve_obj (Suc 0) P0 (Resolver_init None False) (VRef 3) ''resolve_missing'' w0 =
            Some (Inl (LoaderFieldNotProvidedError ''tests.loaders.BookLoader.limit not found in Resolver()''), s, w))"
  by (simp add: resolve_obj_def model_defs ex_defs)

text \<open>
  C2.  The name tested before a post method runs is
  \<^verbatim>\<open>post_key.replace(POST_PREFIX, '')\<close>: for \<open>post_blog_post_count\<close> it is
  \<open>blog_count\<close>, not \<open>blog_post_count\<close>.  The object at address 4 has the attribute
  \<open>blog_post_count\<close> and \<open>resolve\<close> raises \<open>ResolverTargetAttrNotFound\<close>; the object
  at address 5 lacks it and its post method runs.
\<close>

theorem post_attr_name_deletes_every_prefix:
  "str_replace_del (POST_PREFIX P0) ''post_blog_post_count'' = ''blog_count''
   \<and> get_obj (heap w0) (VRef 4) =
       Some \<lparr>cls = ''Blog'', attrs = [''blog_post_count'' \<mapsto> VInt 0], items = None\<rparr>
   \<and> resolve (Suc 0) P0 r0 (VRef 4) w0 =
       Some (Inl (ResolverTargetAttrNotFound
                   ''fail to run post_blog_post_count(), attribute blog_count not found''), r0, w0)
   \<and> get_obj (heap w0) (VRef 5) =
       Some \<lparr>cls = ''Blog'', attrs = [''blog_count'' \<mapsto> VInt 0], items = None\<rparr>
   \<and> resolve (Suc 0) P0 r0 (VRef 5) w0 =
       Some (Inr (VRef 5), r0, w0\<lparr>trace := [PostCall (VRef 5) ''post_blog_post_count'']\<rparr>)"
  by (simp add: model_defs ex_defs)

section \<open>One loader instance per definition\<close>

lemma built_keys_append: "built_keys (s @ t) = built_keys s @ built_keys t"
  by (induction s rule: built_keys.induct) auto

lemma grows_refl [simp]: "grows st st"
  by (simp add: grows_def)

lemma grows_trans: "grows a b \<Longrightarrow> grows b c \<Longrightarrow> grows a c"
  by (auto simp: grows_def intro: map_le_trans)

lemma grows_event [simp]:
  "grows (self, w) (self, w\<lparr>trace := trace w @ t\<rparr>)"
  "grows (self, w) (self, w\<lparr>heap := h, trace := trace w @ t\<rparr>)"
  "grows (self, w) (self, w\<lparr>next_id := i, trace := trace w @ t\<rparr>)"
  by (simp_all add: grows_def)

lemma cache_inv_weaken: "cache_inv True self w \<Longrightarrow> cache_inv ok self w"
  by (simp add: cache_inv_def)

lemma set_fields_base:
  "set_fields key cfg fs ld = Inr ld' \<Longrightarrow> loader_base ld' = loader_base ld"
  by (induction fs arbitrary: ld) (auto split: option.splits)

lemma create_loader_world:
  "create_loader self Base w = (r, w') \<Longrightarrow>
   w' = w\<lparr>next_id := Suc (next_id w), trace := trace w @ [Build (cache_key Base) (next_id w)]\<rparr>"
  by (auto simp: create_loader_def Let_def split: dep_kind.splits)

lemma create_loader_base:
  "create_loader self Base w = (Inr ld, w') \<Longrightarrow> loader_base ld = Base"
  by (auto simp: create_loader_def Let_def split: dep_kind.splits dest: set_fields_base)

lemma cache_inv_hit:
  assumes "cache_inv True self w" "ctx self (cache_key Base) = Some hit"
  shows "cache_inv True self (w\<lparr>trace := trace w @ [Inject k Base hit]\<rparr>)"
  using assms unfolding cache_inv_def by (auto simp: built_keys_append)

lemma cache_inv_miss_fail:
  assumes "cache_inv True self w" "ctx self (cache_key Base) = None"
  shows "cache_inv False self
           (w\<lparr>next_id := Suc (next_id w), trace := trace w @ [Build (cache_key Base) (next_id w)]\<rparr>)"
  using assms unfolding cache_inv_def by (auto simp: built_keys_append)

lemma cache_inv_miss_ok:
  assumes "cache_inv True self w" "ctx self (cache_key Base) = None" "loader_base ld = Base"
  shows "cache_inv True (self\<lparr>ctx := (ctx self)(cache_key Base \<mapsto> ld)\<rparr>)
           (w\<lparr>next_id := Suc (next_id w),
              trace := trace w @ [Build (cache_key Base) (next_id w)] @ [Inject k Base ld]\<rparr>)"
proof -
  have old: "\<And>p d l. Inject p d l \<in> set (trace w) \<Longrightarrow> cache_key d \<noteq> cache_key Base"
    using assms(1,2) unfolding cache_inv_def by (metis option.distinct(1))
  show ?thesis
    using assms old unfolding cache_inv_def by (auto simp: built_keys_append)
qed

lemma exec_params_preserves:
  "exec_params ps acc self w = (r, self', w') \<Longrightarrow>
   grows (self, w) (self', w') \<and> (cache_inv True self w \<longrightarrow> cache_inv (\<not> isl r) self' w')"
proof (induction ps acc self w rule: exec_params.induct)
  case (1 acc self w)
  then show ?case by auto
next
  case (2 k ps acc self w)
  then show ?case by simp
next
  case (3 k ps acc self w)
  then show ?case by (auto intro: cache_inv_weaken)
next
  case (4 k Base ps acc self w)
  show ?case
  proof (cases "ctx self (cache_key Base)")
    case (Some hit)
    let ?w = "w\<lparr>trace := trace w @ [Inject k Base hit]\<rparr>"
    have run: "exec_params ps (acc @ [(k, hit)]) self ?w = (r, self', w')"
      using 4(3) Some by simp
    from 4(2) [OF Some run]
    have ih: "grows (self, ?w) (self', w')" "cache_inv True self ?w \<longrightarrow> cache_inv (\<not> isl r) self' w'"
      by auto
    have "grows (self, w) (self, ?w)" by simp
    then have "grows (self, w) (self', w')" using ih(1) by (rule grows_trans)
    with ih(2) cache_inv_hit [OF _ Some] show ?thesis by blast
  next
    case None
    obtain cr w1 where c: "create_loader self Base w = (cr, w1)" by (cases "create_loader self Base w")
    have w1: "w1 = w\<lparr>next_id := Suc (next_id w), trace := trace w @ [Build (cache_key Base) (next_id w)]\<rparr>"
      using c by (rule create_loader_world)
    show ?thesis
    proof (cases cr)
      case (Inl e)
      with 4(3) None c w1 show ?thesis
        by (auto intro: cache_inv_miss_fail)
    next
      case (Inr ld)
      have b: "loader_base ld = Base" using c Inr create_loader_base by blast
      let ?s = "self\<lparr>ctx := (ctx self)(cache_key Base \<mapsto> ld)\<rparr>"
      let ?w = "w1\<lparr>trace := trace w1 @ [Inject k Base ld]\<rparr>"
      have run: "exec_params ps (acc @ [(k, ld)]) ?s ?w = (r, self', w')"
        using 4(3) None c Inr by simp
      from 4(1) [OF None c [symmetric] Inr run]
      have ih: "grows (?s, ?w) (self', w')" "cache_inv True ?s ?w \<longrightarrow> cache_inv (\<not> isl r) self' w'"
        by auto
      have "grows (self, w) (?s, ?w)"
        using None by (auto simp: grows_def map_le_def w1)
      then have e: "grows (self, w) (self', w')" using ih(1) by (rule grows_trans)
      have "cache_inv True self w \<longrightarrow> cache_inv True ?s ?w"
        using cache_inv_miss_ok [OF _ None b, of w k] by (simp add: w1)
      with e ih(2) show ?thesis by blast
    qed
  qed
qed

lemma cache_inv_other_event:
  "built_keys [e] = [] \<Longrightarrow> (\<And>k d l. e \<noteq> Inject k d l) \<Longrightarrow> trace w' = trace w @ [e] \<Longrightarrow>
   cache_inv ok self w' = cache_inv ok self w"
  unfolding cache_inv_def by (auto simp: built_keys_append)

lemma setattr_cases:
  "setattr target name v w = w \<or>
   (\<exists>h. setattr target name v w = w\<lparr>heap := h, trace := trace w @ [SetAttr target name v]\<rparr>)"
  by (auto simp: setattr_def split: val.splits option.splits)

lemma cache_inv_setattr [simp]: "cache_inv ok self (setattr target name v w) = cache_inv ok self w"
proof -
  consider "setattr target name v w = w"
    | h where "setattr target name v w = w\<lparr>heap := h, trace := trace w @ [SetAttr target name v]\<rparr>"
    using setattr_cases by blast
  then show ?thesis
  proof cases
    case 1
    then show ?thesis by simp
  next
    case 2
    show ?thesis
      by (rule cache_inv_other_event [where e = "SetAttr target name v"]) (simp_all add: 2)
  qed
qed

lemma grows_setattr [simp]: "grows (self, w) (self, setattr target name v w)"
  using setattr_cases [of target name v w] by (auto simp: grows_def)

lemma exec_method_preserves:
  assumes "exec_method self target field m w = (r, self', w')"
  shows "grows (self, w) (self', w') \<and> (cache_inv True self w \<longrightarrow> cache_inv (\<not> isl r) self' w')"
proof -
  obtain pr s1 w1 where p: "exec_params (params m) [] self w = (pr, s1, w1)"
    by (cases "exec_params (params m) [] self w") auto
  note pp = exec_params_preserves [OF p]
  show ?thesis
  proof (cases pr)
    case (Inl e)
    with assms p pp show ?thesis by (auto simp: exec_method_def)
  next
    case (Inr ps)
    obtain v h' where b: "body m target ps (heap w1) = (v, h')" by (cases "body m target ps (heap w1)")
    have w': "w' = w1\<lparr>heap := h', trace := trace w1 @ [Invoke target field]\<rparr>" "self' = s1" "r = Inr v"
      using assms p Inr b by (auto simp: exec_method_def)
    have "cache_inv True s1 w' = cache_inv True s1 w1"
      by (rule cache_inv_other_event [where e = "Invoke target field"]) (simp_all add: w')
    moreover have "grows (s1, w1) (s1, w')" by (simp add: w')
    ultimately show ?thesis using pp Inr w' by (auto intro: grows_trans)
  qed
qed

lemma run_post_methods_preserves:
  "run_post_methods P target keys self w = (r, self', w') \<Longrightarrow>
   self' = self \<and> grows (self, w) (self, w') \<and> cache_inv ok self w' = cache_inv ok self w"
proof (induction keys arbitrary: w)
  case Nil
  then show ?case by simp
next
  case (Cons post_key rest)
  show ?case
  proof (cases "hasattr P (heap w) target (str_replace_del (POST_PREFIX P) post_key)")
    case False
    with Cons.prems show ?thesis by (simp add: Let_def)
  next
    case True
    show ?thesis
    proof (cases "get_post_method P (heap w) target post_key")
      case None
      with True Cons.prems show ?thesis by (simp add: Let_def)
    next
      case (Some pm)
      obtain rv h' where b: "post_body pm target (heap w) = (rv, h')"
        by (cases "post_body pm target (heap w)")
      let ?w = "w\<lparr>heap := h', trace := trace w @ [PostCall target post_key]\<rparr>"
      have "run_post_methods P target rest self ?w = (r, self', w')"
        using Cons.prems True Some b by (simp add: Let_def)
      from Cons.IH [OF this]
      have ih: "self' = self" "grows (self, ?w) (self, w')" "cache_inv ok self w' = cache_inv ok self ?w"
        by auto
      have c: "cache_inv ok self ?w = cache_inv ok self w"
        by (rule cache_inv_other_event [where e = "PostCall target post_key"]) simp_all
      have "grows (self, w) (self, ?w)" by simp
      then have "grows (self, w) (self, w')" using ih(2) by (rule grows_trans)
      with ih(1,3) c show ?thesis by simp
    qed
  qed
qed

lemma preservesD:
  "preserves c \<Longrightarrow> c self w = Some (r, self', w') \<Longrightarrow>
   grows (self, w) (self', w') \<and> (cache_inv True self w \<longrightarrow> cache_inv (\<not> isl r) self' w')"
  unfolding preserves_def by blast

lemma gather_preserves:
  assumes "\<And>x. preserves (f x)"
  shows "preserves (gather f xs)"
  unfolding preserves_def
proof (induction xs)
  case Nil
  then show ?case by (auto intro: cache_inv_weaken)
next
  case (Cons x xs)
  show ?case
  proof (intro allI impI)
    fix self w r self' w'
    assume g: "gather f (x # xs) self w = Some (r, self', w')"
    then obtain r1 s1 w1 where f1: "f x self w = Some (r1, s1, w1)"
      by (cases "f x self w") auto
    note p1 = preservesD [OF assms f1]
    show "grows (self, w) (self', w') \<and> (cache_inv True self w \<longrightarrow> cache_inv (\<not> isl r) self' w')"
    proof (cases r1)
      case (Inl e)
      with g f1 p1 show ?thesis by auto
    next
      case (Inr u)
      with g f1 have "gather f xs s1 w1 = Some (r, self', w')" by simp
      with Cons.IH
      have "grows (s1, w1) (self', w')" "cache_inv True s1 w1 \<longrightarrow> cache_inv (\<not> isl r) self' w'"
        by blast+
      with p1 Inr show ?thesis by (auto intro: grows_trans)
    qed
  qed
qed

lemma resolve_obj_step_preserves:
  assumes rec: "\<And>t. preserves (\<lambda>s. rec s t)"
  shows "preserves (\<lambda>s. resolve_obj_step rec P s target field)"
  unfolding preserves_def
proof (intro allI impI)
  fix self w r self' w'
  assume a: "resolve_obj_step rec P self target field w = Some (r, self', w')"
  show "grows (self, w) (self', w') \<and> (cache_inv True self w \<longrightarrow> cache_inv (\<not> isl r) self' w')"
  proof (cases "get_resolver P (heap w) target field")
    case None
    with a show ?thesis by (auto simp: resolve_obj_step_def intro: cache_inv_weaken)
  next
    case (Some item)
    obtain er s1 w1 where e: "exec_method self target field item w = (er, s1, w1)"
      by (cases "exec_method self target field item w") auto
    note pe = exec_method_preserves [OF e]
    show ?thesis
    proof (cases er)
      case (Inl x)
      with a Some e pe show ?thesis by (auto simp: resolve_obj_step_def Let_def)
    next
      case (Inr v)
      let ?name = "str_replace_del (PREFIX P) field"
      show ?thesis
      proof (cases "\<not> hasattr P (heap w1) target ?name \<or> (ensure_type s1 \<and> annotations item = [])")
        case True
        with a Some e Inr pe show ?thesis
          by (auto simp: resolve_obj_step_def Let_def intro: cache_inv_weaken split: if_splits)
      next
        case False
        then obtain r2 s2 w2 where r2: "rec s1 (await_all v) w1 = Some (r2, s2, w2)"
          using a Some e Inr by (auto simp: resolve_obj_step_def Let_def split: option.splits)
        note p2 = preservesD [OF rec r2]
        show ?thesis
        proof (cases r2)
          case (Inl x)
          with a Some e Inr False r2 p2 pe show ?thesis
            by (auto simp: resolve_obj_step_def Let_def intro: grows_trans)
        next
          case (Inr v')
          have res: "r = Inr ()" "self' = s2" "w' = setattr target ?name v' w2"
            using a Some e \<open>er = Inr v\<close> False r2 Inr by (auto simp: resolve_obj_step_def Let_def)
          have "grows (s2, w2) (s2, w')" by (simp add: res)
          with p2 pe have "grows (self, w) (self', w')"
            unfolding res(2) by (blast intro: grows_trans)
          moreover have "cache_inv True self w \<longrightarrow> cache_inv (\<not> isl r) self' w'"
            using p2 pe Inr \<open>er = Inr v\<close> by (simp add: res)
          ultimately show ?thesis by blast
        qed
      qed
    qed
  qed
qed

lemma resolve_step_preserves:
  assumes rec: "\<And>t. preserves (\<lambda>s. rec s t)"
  shows "preserves (\<lambda>s. resolve_step rec P s target)"
  unfolding preserves_def
proof (intro allI impI)
  fix self w r self' w'
  assume a: "resolve_step rec P self target w = Some (r, self', w')"
  let ?g1 = "if isinstance_list_tuple (heap w) target
             then gather (\<lambda>t s. rec s t) (elements (heap w) target) self w
             else Some (Inr (), self, w)"
  have pg1: "preserves (gather (\<lambda>t s. rec s t) (elements (heap w) target))"
    by (rule gather_preserves) (rule rec)
  obtain r1 s1 w1 where g1: "?g1 = Some (r1, s1, w1)"
    using a by (cases ?g1) (auto simp: resolve_step_def)
  have p1: "grows (self, w) (s1, w1) \<and> (cache_inv True self w \<longrightarrow> cache_inv (\<not> isl r1) s1 w1)"
  proof (cases "isinstance_list_tuple (heap w) target")
    case True
    with g1 preservesD [OF pg1] show ?thesis by simp
  next
    case False
    with g1 show ?thesis by auto
  qed
  show "grows (self, w) (self', w') \<and> (cache_inv True self w \<longrightarrow> cache_inv (\<not> isl r) self' w')"
  proof (cases r1)
    case (Inl e)
    with a g1 p1 show ?thesis by (auto simp: resolve_step_def)
  next
    case (Inr u)
    note r1 = this
    show ?thesis
    proof (cases "is_acceptable_type P (heap w1) target")
      case False
      with a g1 r1 p1 show ?thesis by (auto simp: resolve_step_def)
    next
      case True
      let ?g2 = "gather (\<lambda>field s. resolve_obj_step rec P s target field)
                    (iter_over_object_resolvers P (heap w1) target)"
      have pg2: "preserves ?g2"
        by (rule gather_preserves) (rule resolve_obj_step_preserves, rule rec)
      obtain r2 s2 w2 where g2: "?g2 s1 w1 = Some (r2, s2, w2)"
        using a g1 r1 True by (cases "?g2 s1 w1") (auto simp: resolve_step_def)
      note p2 = preservesD [OF pg2 g2]
      show ?thesis
      proof (cases r2)
        case (Inl e)
        with a g1 r1 True g2 p1 p2 show ?thesis
          by (auto simp: resolve_step_def intro: grows_trans)
      next
        case (Inr u')
        obtain r3 s3 w3 where
          g3: "run_post_methods P target (iter_over_object_post_methods P (heap w2) target) s2 w2
                = (r3, s3, w3)"
          by (cases "run_post_methods P target (iter_over_object_post_methods P (heap w2) target) s2 w2")
             auto
        from run_post_methods_preserves [OF g3]
        have p3: "s3 = s2" "grows (s2, w2) (s2, w3)" "\<And>ok. cache_inv ok s2 w3 = cache_inv ok s2 w2"
          by auto
        have res: "self' = s2" "w' = w3" "isl r = isl r3"
          using a g1 r1 True g2 Inr g3 p3(1) by (auto simp: resolve_step_def split: sum.splits)
        have "cache_inv True s2 w2 \<longrightarrow> cache_inv (\<not> isl r) s2 w3"
          using p3(3) by (auto intro: cache_inv_weaken)
        moreover have "grows (self, w) (s2, w3)"
          using p1 p2 p3(2) by (blast intro: grows_trans)
        ultimately show ?thesis using p1 p2 r1 Inr res by auto
      qed
    qed
  qed
qed

lemma resolve_preserves: "preserves (\<lambda>s. resolve n P s target)"
proof (induction n arbitrary: target)
  case 0
  then show ?case by (simp add: preserves_def)
next
  case (Suc n)
  show ?case
    using resolve_step_preserves [of "resolve n P" P target, OF Suc] by simp
qed


lemma cache_inv_fresh: "ctx self = Map.empty \<Longrightarrow> trace w = [] \<Longrightarrow> cache_inv True self w"
  by (simp add: cache_inv_def)





section \<open>What a post method returns\<close>

text \<open>
  C10.  The loop over the post methods calls each one with the receiver only and
  continues with the heap the call leaves; the value the call returns is used
  nowhere.  Whatever the loop returns (normally, or an exception at the first key
  whose attribute is missing), the keys run so far are a prefix of the enumeration,
  the log has grown by exactly one \<open>PostCall\<close> per key run (no attribute is written by
  the engine), the Resolver is unchanged, and the heap is the result of the heap
  effects of the methods alone.  A post method that returns a coroutine has it
  dropped like any other value.
\<close>

theorem post_results_discarded:
  assumes "run_post_methods P target keys self w = (r, self', w')"
  shows "\<exists>ran rest. keys = ran @ rest \<and> (r = Inr () \<longrightarrow> rest = []) \<and> self' = self
     \<and> next_id w' = next_id w
     \<and> trace w' = trace w @ map (PostCall target) ran
     \<and> heap w' = fold (post_effect P target) ran (heap w)"
  using assms
proof (induction keys arbitrary: w)
  case Nil
  then show ?case by simp
next
  case (Cons post_key keys)
  let ?eff = "post_effect P target"
  show ?case
  proof (cases "hasattr P (heap w) target (str_replace_del (POST_PREFIX P) post_key)
                \<and> get_post_method P (heap w) target post_key \<noteq> None")
    case False
    with Cons.prems have "r \<noteq> Inr ()" "self' = self" "w' = w"
      by (auto simp: Let_def split: if_splits option.splits)
    then show ?thesis
      by (intro exI [of _ "[]"] exI [of _ "post_key # keys"]) simp
  next
    case True
    then obtain pm where pm: "get_post_method P (heap w) target post_key = Some pm" by auto
    obtain rv h' where b: "post_body pm target (heap w) = (rv, h')"
      by (cases "post_body pm target (heap w)")
    let ?w = "w\<lparr>heap := h', trace := trace w @ [PostCall target post_key]\<rparr>"
    have "run_post_methods P target keys self ?w = (r, self', w')"
      using Cons.prems True pm b by (simp add: Let_def)
    from Cons.IH [OF this] obtain ran rest where
      ih: "keys = ran @ rest" "r = Inr () \<longrightarrow> rest = []" "self' = self" "next_id w' = next_id ?w"
        "trace w' = trace ?w @ map (PostCall target) ran" "heap w' = fold ?eff ran (heap ?w)"
      by blast
    have "heap w' = fold ?eff (post_key # ran) (heap w)"
      using ih(6) pm b by (simp add: post_effect_def)
    with ih(1-5) show ?thesis
      by (intro exI [of _ "post_key # ran"] exI [of _ rest]) simp
  qed
qed

theorem post_results_discarded_witness:
  "post_body post_count (VRef 1) (heap w0) = (VCoroutine VNone, heap w0)
   \<and> (\<exists>w'. run_post_methods P0 (VRef 1) [''post_count''] r0 w0 = (Inr (), r0, w')
          \<and> heap w' = heap w0 \<and> trace w' = [PostCall (VRef 1) ''post_count''])"
proof -
  have e: "\<exists>w'. run_post_methods P0 (VRef 1) [''post_count''] r0 w0 = (Inr (), r0, w')"
    by (simp add: model_defs ex_defs)
  then obtain w' where run: "run_post_methods P0 (VRef 1) [''post_count''] r0 w0 = (Inr (), r0, w')"
    by blast
  from post_results_discarded [OF run] obtain ran rest where
    r: "[''post_count''] = ran @ rest" "rest = []"
      "trace w' = trace w0 @ map (PostCall (VRef 1)) ran"
      "heap w' = fold (post_effect P0 (VRef 1)) ran (heap w0)"
    by blast
  from r(1,2) have ran: "ran = [''post_count'']" by simp
  have "trace w' = [PostCall (VRef 1) ''post_count'']"
    using r(3) by (simp add: ran w0_def)
  moreover have "heap w' = heap w0"
    unfolding r(4) ran by (simp add: post_effect_def model_defs ex_defs)
  moreover have "post_body post_count (VRef 1) (heap w0) = (VCoroutine VNone, heap w0)"
    by (simp add: post_count_def)
  ultimately show ?thesis using run by blast
qed

section \<open>Collections\<close>

text \<open>
  A gather returns normally exactly when every call returns normally, each from the
  state the one before it left.
\<close>

lemma gather_Inr_iff:
  "gather f xs self w = Some (Inr (), self', w') \<longleftrightarrow>
     (\<exists>sts. length sts = Suc (length xs) \<and> sts ! 0 = (self, w) \<and> last sts = (self', w')
        \<and> (\<forall>i<length xs. \<exists>r. f (xs ! i) (fst (sts ! i)) (snd (sts ! i)) = Some (Inr r, sts ! Suc i)))"
proof (induction xs arbitrary: self w)
  case Nil
  show ?case
  proof
    assume "gather f [] self w = Some (Inr (), self', w')"
    then show "\<exists>sts. length sts = Suc (length []) \<and> sts ! 0 = (self, w) \<and> last sts = (self', w')
        \<and> (\<forall>i<length []. \<exists>r. f ([] ! i) (fst (sts ! i)) (snd (sts ! i)) = Some (Inr r, sts ! Suc i))"
      by (intro exI [of _ "[(self, w)]"]) simp
  next
    assume "\<exists>sts. length sts = Suc (length []) \<and> sts ! 0 = (self, w) \<and> last sts = (self', w')
        \<and> (\<forall>i<length []. \<exists>r. f ([] ! i) (fst (sts ! i)) (snd (sts ! i)) = Some (Inr r, sts ! Suc i))"
    then obtain sts where s: "length sts = Suc 0" "sts ! 0 = (self, w)" "last sts = (self', w')"
      by auto
    then obtain a where "sts = [a]" by (cases sts) auto
    with s show "gather f [] self w = Some (Inr (), self', w')" by simp
  qed
next
  case (Cons x xs)
  show ?case
  proof
    assume g: "gather f (x # xs) self w = Some (Inr (), self', w')"
    then obtain r s1 w1 where f1: "f x self w = Some (Inr r, s1, w1)"
      and g': "gather f xs s1 w1 = Some (Inr (), self', w')"
      by (auto split: option.splits sum.splits)
    from Cons.IH [of s1 w1] g' obtain sts where
      sts: "length sts = Suc (length xs)" "sts ! 0 = (s1, w1)" "last sts = (self', w')"
        "\<forall>i<length xs. \<exists>r. f (xs ! i) (fst (sts ! i)) (snd (sts ! i)) = Some (Inr r, sts ! Suc i)"
      by blast
    have ne: "sts \<noteq> []" using sts(1) by auto
    have "\<forall>i<length (x # xs). \<exists>r. f ((x # xs) ! i) (fst (((self, w) # sts) ! i)) (snd (((self, w) # sts) ! i))
            = Some (Inr r, ((self, w) # sts) ! Suc i)"
    proof (intro allI impI)
      fix i assume "i < length (x # xs)"
      then show "\<exists>r. f ((x # xs) ! i) (fst (((self, w) # sts) ! i)) (snd (((self, w) # sts) ! i))
            = Some (Inr r, ((self, w) # sts) ! Suc i)"
        using f1 sts(2,4) by (cases i) auto
    qed
    then show "\<exists>sts. length sts = Suc (length (x # xs)) \<and> sts ! 0 = (self, w) \<and> last sts = (self', w')
        \<and> (\<forall>i<length (x # xs). \<exists>r. f ((x # xs) ! i) (fst (sts ! i)) (snd (sts ! i)) = Some (Inr r, sts ! Suc i))"
      using sts(1,3) ne by (intro exI [of _ "(self, w) # sts"]) simp
  next
    assume "\<exists>sts. length sts = Suc (length (x # xs)) \<and> sts ! 0 = (self, w) \<and> last sts = (self', w')
        \<and> (\<forall>i<length (x # xs). \<exists>r. f ((x # xs) ! i) (fst (sts ! i)) (snd (sts ! i)) = Some (Inr r, sts ! Suc i))"
    then obtain sts where
      sts: "length sts = Suc (Suc (length xs))" "sts ! 0 = (self, w)" "last sts = (self', w')"
        "\<forall>i<Suc (length xs). \<exists>r. f ((x # xs) ! i) (fst (sts ! i)) (snd (sts ! i)) = Some (Inr r, sts ! Suc i)"
      by auto
    then obtain a rest where c: "sts = a # rest" by (cases sts) auto
    with sts(2) have a: "a = (self, w)" by simp
    have lr: "length rest = Suc (length xs)" using sts(1) c by simp
    then have ne: "rest \<noteq> []" by auto
    from sts(4) [rule_format, of 0] obtain r where
      f1: "f x self w = Some (Inr r, rest ! 0)"
      using c a by auto
    obtain s1 w1 where r0: "rest ! 0 = (s1, w1)" by (cases "rest ! 0")
    have step: "\<forall>i<length xs. \<exists>r. f (xs ! i) (fst (rest ! i)) (snd (rest ! i)) = Some (Inr r, rest ! Suc i)"
    proof (intro allI impI)
      fix i assume "i < length xs"
      with sts(4) [rule_format, of "Suc i"] c
      show "\<exists>r. f (xs ! i) (fst (rest ! i)) (snd (rest ! i)) = Some (Inr r, rest ! Suc i)"
        by simp
    qed
    have "last rest = (self', w')" using sts(3) c ne by simp
    with lr r0 step have "gather f xs s1 w1 = Some (Inr (), self', w')"
      using Cons.IH [of s1 w1] by blast
    with f1 r0 show "gather f (x # xs) self w = Some (Inr (), self', w')" by simp
  qed
qed


lemma resolve_step_Inr_iff:
  "resolve_step rec P self target w = Some (Inr v, self', w') \<longleftrightarrow>
     v = target \<and>
     (\<exists>s1 w1.
        (if isinstance_list_tuple (heap w) target
         then gather (\<lambda>t s. rec s t) (elements (heap w) target) self w
         else Some (Inr (), self, w)) = Some (Inr (), s1, w1)
        \<and> (if is_acceptable_type P (heap w1) target
           then \<exists>s2 w2.
                  gather (\<lambda>field s. resolve_obj_step rec P s target field)
                    (iter_over_object_resolvers P (heap w1) target) s1 w1 = Some (Inr (), s2, w2)
                  \<and> run_post_methods P target (iter_over_object_post_methods P (heap w2) target) s2 w2
                      = (Inr (), self', w')
           else self' = s1 \<and> w' = w1))"
  unfolding resolve_step_def
  by (auto split: option.splits sum.splits prod.splits if_splits)

text \<open>
  C9.  On a list or tuple, \<open>resolve\<close> returns normally exactly when each element, in
  the order of the list, is resolved by a nested \<open>resolve\<close> that returns normally,
  and then, on the same target and in the state the last element left, either the
  target is not acceptable and that state is returned, or it is acceptable, all its
  resolver fields are resolved and all its post methods run.  So every element has
  been resolved when the call returns, and the elements are not the end of the call.
\<close>

theorem collection_then_object:
  assumes "isinstance_list_tuple (heap w) target"
  shows "resolve (Suc n) P self target w = Some (Inr v, self', w') \<longleftrightarrow>
     v = target \<and>
     (\<exists>sts. length sts = Suc (length (elements (heap w) target)) \<and> sts ! 0 = (self, w)
        \<and> (\<forall>i<length (elements (heap w) target).
              resolve n P (fst (sts ! i)) (elements (heap w) target ! i) (snd (sts ! i))
                = Some (Inr (elements (heap w) target ! i), sts ! Suc i))
        \<and> (if is_acceptable_type P (heap (snd (last sts))) target
           then \<exists>self2 w2.
                  gather (\<lambda>field s. resolve_obj n P s target field)
                    (iter_over_object_resolvers P (heap (snd (last sts))) target)
                    (fst (last sts)) (snd (last sts)) = Some (Inr (), self2, w2)
                  \<and> run_post_methods P target (iter_over_object_post_methods P (heap w2) target) self2 w2
                      = (Inr (), self', w')
           else self' = fst (last sts) \<and> w' = snd (last sts)))"
    (is "?L \<longleftrightarrow> v = target \<and> (\<exists>sts. ?len sts \<and> ?first sts \<and> ?elems sts \<and> ?obj (fst (last sts)) (snd (last sts)))")
proof -
  let ?xs = "elements (heap w) target"
  let ?f = "\<lambda>t s. resolve n P s t"
  have exact: "(\<exists>r. ?f (?xs ! i) s u = Some (Inr r, st)) \<longleftrightarrow> ?f (?xs ! i) s u = Some (Inr (?xs ! i), st)"
    for i s u st
    by (cases st) (auto dest: resolve_result_is_target)
  have "?L \<longleftrightarrow> v = target \<and> (\<exists>s1 w1. gather ?f ?xs self w = Some (Inr (), s1, w1) \<and> ?obj s1 w1)"
    using assms by (simp add: resolve_step_Inr_iff resolve_obj_def)
  also have "\<dots> \<longleftrightarrow> v = target \<and>
      (\<exists>s1 w1. (\<exists>sts. ?len sts \<and> ?first sts \<and> last sts = (s1, w1) \<and> ?elems sts) \<and> ?obj s1 w1)"
    unfolding gather_Inr_iff exact by simp
  also have "\<dots> \<longleftrightarrow> v = target \<and>
      (\<exists>sts. ?len sts \<and> ?first sts \<and> ?elems sts \<and> ?obj (fst (last sts)) (snd (last sts)))"
  proof -
    have "(\<exists>s1 w1. (\<exists>sts. ?len sts \<and> ?first sts \<and> last sts = (s1, w1) \<and> ?elems sts) \<and> ?obj s1 w1)
       \<longleftrightarrow> (\<exists>sts. ?len sts \<and> ?first sts \<and> ?elems sts \<and> ?obj (fst (last sts)) (snd (last sts)))"
    proof
      assume "\<exists>s1 w1. (\<exists>sts. ?len sts \<and> ?first sts \<and> last sts = (s1, w1) \<and> ?elems sts) \<and> ?obj s1 w1"
      then obtain s1 w1 sts where "?len sts" "?first sts" "last sts = (s1, w1)" "?elems sts" "?obj s1 w1"
        by blast
      then have "?len sts \<and> ?first sts \<and> ?elems sts \<and> ?obj (fst (last sts)) (snd (last sts))"
        by simp
      then show "\<exists>sts. ?len sts \<and> ?first sts \<and> ?elems sts \<and> ?obj (fst (last sts)) (snd (last sts))" ..
    next
      assume "\<exists>sts. ?len sts \<and> ?first sts \<and> ?elems sts \<and> ?obj (fst (last sts)) (snd (last sts))"
      then obtain sts where "?len sts" "?first sts" "?elems sts" "?obj (fst (last sts)) (snd (last sts))"
        by blast
      then have "(\<exists>sts'. ?len sts' \<and> ?first sts' \<and> last sts' = (fst (last sts), snd (last sts)) \<and> ?elems sts')
            \<and> ?obj (fst (last sts)) (snd (last sts))"
        by (intro conjI exI [of _ sts]) simp_all
      then show "\<exists>s1 w1. (\<exists>sts. ?len sts \<and> ?first sts \<and> last sts = (s1, w1) \<and> ?elems sts) \<and> ?obj s1 w1"
        by blast
    qed
    then show ?thesis by simp
  qed
  finally show ?thesis .
qed


theorem collection_then_object_witness:
  "\<exists>s' w' s1 w1 s2 w2.
     resolve (Suc (Suc (Suc (Suc 0)))) P0 r0 (VRef 8) w0 = Some (Inr (VRef 8), s', w')
     \<and> elements (heap w0) (VRef 8) = [VRef 1]
     \<and> resolve (Suc (Suc (Suc 0))) P0 r0 (VRef 1) w0 = Some (Inr (VRef 1), s1, w1)
     \<and> is_acceptable_type P0 (heap w1) (VRef 8)
     \<and> gather (\<lambda>field s. resolve_obj (Suc (Suc (Suc 0))) P0 s (VRef 8) field)
          (iter_over_object_resolvers P0 (heap w1) (VRef 8)) s1 w1 = Some (Inr (), s2, w2)
     \<and> run_post_methods P0 (VRef 8) (iter_over_object_post_methods P0 (heap w2) (VRef 8)) s2 w2
          = (Inr (), s', w')"
proof -
  let ?n = "Suc (Suc (Suc 0))"
  have c: "isinstance_list_tuple (heap w0) (VRef 8)"
    by (simp add: model_defs ex_defs)
  have els: "elements (heap w0) (VRef 8) = [VRef 1]"
    by (simp add: model_defs ex_defs)
  have "\<exists>s' w'. resolve (Suc ?n) P0 r0 (VRef 8) w0 = Some (Inr (VRef 8), s', w')"
    by (simp add: model_defs ex_defs)
  then obtain s' w' where run: "resolve (Suc ?n) P0 r0 (VRef 8) w0 = Some (Inr (VRef 8), s', w')"
    by blast
  have "\<exists>s1 w1. resolve ?n P0 r0 (VRef 1) w0 = Some (Inr (VRef 1), s1, w1)
          \<and> is_acceptable_type P0 (heap w1) (VRef 8)"
    by (simp add: model_defs ex_defs)
  then obtain s1 w1 where e1: "resolve ?n P0 r0 (VRef 1) w0 = Some (Inr (VRef 1), s1, w1)"
    and acc: "is_acceptable_type P0 (heap w1) (VRef 8)"
    by blast
  from collection_then_object [OF c, THEN iffD1, OF run] obtain sts where
    sts: "length sts = Suc (length (elements (heap w0) (VRef 8)))" "sts ! 0 = (r0, w0)"
      "\<forall>i<length (elements (heap w0) (VRef 8)).
          resolve ?n P0 (fst (sts ! i)) (elements (heap w0) (VRef 8) ! i) (snd (sts ! i))
            = Some (Inr (elements (heap w0) (VRef 8) ! i), sts ! Suc i)"
      "if is_acceptable_type P0 (heap (snd (last sts))) (VRef 8)
       then \<exists>self2 w2.
              gather (\<lambda>field s. resolve_obj ?n P0 s (VRef 8) field)
                (iter_over_object_resolvers P0 (heap (snd (last sts))) (VRef 8))
                (fst (last sts)) (snd (last sts)) = Some (Inr (), self2, w2)
              \<and> run_post_methods P0 (VRef 8) (iter_over_object_post_methods P0 (heap w2) (VRef 8)) self2 w2
                  = (Inr (), s', w')
       else s' = fst (last sts) \<and> w' = snd (last sts)"
    by blast
  have l2: "length sts = Suc (Suc 0)" using sts(1) els by simp
  have "sts ! Suc 0 = (s1, w1)"
    using sts(3) [rule_format, of 0] sts(2) e1 by (simp add: els)
  moreover have "last sts = sts ! Suc 0"
    using l2 by (cases sts) (auto simp: last_conv_nth)
  ultimately have last: "last sts = (s1, w1)" by simp
  from sts(4) acc obtain s2 w2 where
    "gather (\<lambda>field s. resolve_obj ?n P0 s (VRef 8) field)
        (iter_over_object_resolvers P0 (heap w1) (VRef 8)) s1 w1 = Some (Inr (), s2, w2)"
    "run_post_methods P0 (VRef 8) (iter_over_object_post_methods P0 (heap w2) (VRef 8)) s2 w2
        = (Inr (), s', w')"
    unfolding last by auto
  with run els e1 acc show ?thesis by blast
qed

section \<open>The lifetime of the cache\<close>

text \<open>
  C6, as the claim states it, fails: the cache is created by \<open>Resolver_init\<close>, not by
  \<open>resolve\<close>.  A first call on \<open>r0\<close> builds the loader for the student at address 1; a
  second call of \<open>resolve\<close> on the same Resolver, for the student at address 2 and
  with an empty log, constructs nothing and binds the instance of the first call.
\<close>

theorem second_call_reuses_instance:
  "\<exists>s1 w1 s2 w2 l.
     resolve (Suc (Suc (Suc 0))) P0 r0 (VRef 1) w0 = Some (Inr (VRef 1), s1, w1)
     \<and> built_keys (trace w1) = [''tests.loaders.BookLoader'']
     \<and> Inject ''loader'' BookLoader l \<in> set (trace w1)
     \<and> resolve (Suc (Suc (Suc 0))) P0 s1 (VRef 2) (w1\<lparr>trace := []\<rparr>) = Some (Inr (VRef 2), s2, w2)
     \<and> built_keys (trace w2) = []
     \<and> Inject ''loader'' BookLoader l \<in> set (trace w2)"
  by (simp add: model_defs ex_defs)

text \<open>
  C6, amended.  A Resolver is constructed with an empty cache.  \<open>resolve\<close> neither
  resets nor discards it: a call keeps every entry, the configuration table and the
  strict mode.  In a call on a newly constructed Resolver every definition that is
  bound to a parameter is constructed in that call.  A later call on the same
  Resolver constructs no key that the earlier call constructed and binds, for a
  definition the earlier call bound, the instance of the earlier call.
\<close>

theorem cache_lives_with_resolver:
  "ctx (Resolver_init loader_filters et) = Map.empty
   \<and> (resolve n P self target w = Some (r, self', w') \<longrightarrow>
        ctx self \<subseteq>\<^sub>m ctx self' \<and> loader_filters_ctx self' = loader_filters_ctx self
        \<and> ensure_type self' = ensure_type self)
   \<and> (resolve n P (Resolver_init loader_filters et) target w = Some (r, self', w') \<and> trace w = [] \<longrightarrow>
        (\<forall>k d l. Inject k d l \<in> set (trace w') \<longrightarrow> cache_key d \<in> set (built_keys (trace w')))
        \<and> (\<forall>v n2 target2 r2 self2 w2.
              r = Inr v \<and> resolve n2 P self' target2 w' = Some (r2, self2, w2) \<longrightarrow>
              (\<exists>t. trace w2 = trace w' @ t
                 \<and> set (built_keys t) \<inter> set (built_keys (trace w')) = {}
                 \<and> (\<forall>k d l k' l'. Inject k d l \<in> set (trace w') \<and> Inject k' d l' \<in> set t
                        \<longrightarrow> l' = l))))"
proof -
  have 1: "ctx (Resolver_init loader_filters et) = Map.empty"
    by (simp add: Resolver_init_def)
  have 2: "ctx self \<subseteq>\<^sub>m ctx self' \<and> loader_filters_ctx self' = loader_filters_ctx self
        \<and> ensure_type self' = ensure_type self"
    if "resolve n P self target w = Some (r, self', w')"
    using preservesD [OF resolve_preserves that] by (simp add: grows_def)
  have 3: "(\<forall>k d l. Inject k d l \<in> set (trace w') \<longrightarrow> cache_key d \<in> set (built_keys (trace w')))
        \<and> (\<forall>v n2 target2 r2 self2 w2.
              r = Inr v \<and> resolve n2 P self' target2 w' = Some (r2, self2, w2) \<longrightarrow>
              (\<exists>t. trace w2 = trace w' @ t
                 \<and> set (built_keys t) \<inter> set (built_keys (trace w')) = {}
                 \<and> (\<forall>k d l k' l'. Inject k d l \<in> set (trace w') \<and> Inject k' d l' \<in> set t
                        \<longrightarrow> l' = l)))"
    if a: "resolve n P (Resolver_init loader_filters et) target w = Some (r, self', w') \<and> trace w = []"
  proof (intro conjI)
    have "cache_inv True (Resolver_init loader_filters et) w"
      using a by (intro cache_inv_fresh) (simp_all add: Resolver_init_def)
    with preservesD [OF resolve_preserves a [THEN conjunct1]]
    have inv1: "cache_inv (\<not> isl r) self' w'" by blast
    show "\<forall>k d l. Inject k d l \<in> set (trace w') \<longrightarrow> cache_key d \<in> set (built_keys (trace w'))"
    using inv1 unfolding cache_inv_def by blast
  show "\<forall>v n2 target2 r2 self2 w2.
              r = Inr v \<and> resolve n2 P self' target2 w' = Some (r2, self2, w2) \<longrightarrow>
              (\<exists>t. trace w2 = trace w' @ t
                 \<and> set (built_keys t) \<inter> set (built_keys (trace w')) = {}
                 \<and> (\<forall>k d l k' l'. Inject k d l \<in> set (trace w') \<and> Inject k' d l' \<in> set t
                        \<longrightarrow> l' = l))"
  proof (intro allI impI)
    fix v n2 target2 r2 self2 w2
    assume b: "r = Inr v \<and> resolve n2 P self' target2 w' = Some (r2, self2, w2)"
    then have "cache_inv True self' w'" using inv1 by simp
    with preservesD [OF resolve_preserves b [THEN conjunct2]]
    have g: "grows (self', w') (self2, w2)" and inv2: "cache_inv (\<not> isl r2) self2 w2"
      by blast+
    from g obtain t where t: "trace w2 = trace w' @ t" by (auto simp: grows_def)
    have "distinct (built_keys (trace w') @ built_keys t)"
      using inv2 unfolding cache_inv_def t by (simp add: built_keys_append)
    then have d: "set (built_keys t) \<inter> set (built_keys (trace w')) = {}" by auto
    have "l' = l" if "Inject k d l \<in> set (trace w')" "Inject k' d l' \<in> set t" for k d l k' l'
    proof -
      have inj: "\<And>k d l. Inject k d l \<in> set (trace w2) \<Longrightarrow> ctx self2 (cache_key d) = Some l"
        using inv2 unfolding cache_inv_def by blast
      have "ctx self2 (cache_key d) = Some l" "ctx self2 (cache_key d) = Some l'"
        using inj [of k d l] inj [of k' d l'] that by (simp_all add: t)
      then show ?thesis by simp
    qed
    with t d show "\<exists>t. trace w2 = trace w' @ t
                 \<and> set (built_keys t) \<inter> set (built_keys (trace w')) = {}
                 \<and> (\<forall>k d l k' l'. Inject k d l \<in> set (trace w') \<and> Inject k' d l' \<in> set t
                        \<longrightarrow> l' = l)"
      by blast
  qed
  qed
  from 1 2 3 show ?thesis by blast
qed


theorem cache_lives_with_resolver_witness:
  "\<exists>s1 w1 s2 w2 t l.
     ctx r0 = Map.empty
     \<and> resolve (Suc (Suc (Suc 0))) P0 r0 (VRef 1) w0 = Some (Inr (VRef 1), s1, w1)
     \<and> Inject ''loader'' BookLoader l \<in> set (trace w1)
     \<and> cache_key BookLoader \<in> set (built_keys (trace w1))
     \<and> resolve (Suc (Suc (Suc 0))) P0 s1 (VRef 2) w1 = Some (Inr (VRef 2), s2, w2)
     \<and> ctx s1 \<subseteq>\<^sub>m ctx s2
     \<and> trace w2 = trace w1 @ t
     \<and> set (built_keys t) \<inter> set (built_keys (trace w1)) = {}"
proof -
  let ?n = "Suc (Suc (Suc 0))"
  have "\<exists>s1 w1 s2 w2 l. resolve ?n P0 r0 (VRef 1) w0 = Some (Inr (VRef 1), s1, w1)
      \<and> Inject ''loader'' BookLoader l \<in> set (trace w1)
      \<and> resolve ?n P0 s1 (VRef 2) w1 = Some (Inr (VRef 2), s2, w2)"
    by (simp add: model_defs ex_defs)
  then obtain s1 w1 s2 w2 l where
    run1: "resolve ?n P0 r0 (VRef 1) w0 = Some (Inr (VRef 1), s1, w1)"
    and inj: "Inject ''loader'' BookLoader l \<in> set (trace w1)"
    and run2: "resolve ?n P0 s1 (VRef 2) w1 = Some (Inr (VRef 2), s2, w2)"
    by blast
  have t0: "trace w0 = []" by (simp add: w0_def)
  note main = cache_lives_with_resolver
    [where loader_filters = "Some [BookLoader \<mapsto> [''limit'' \<mapsto> VInt 3]]" and et = False, folded r0_def]
  have a: "ctx r0 = Map.empty"
    using main by blast
  have b: "ctx s1 \<subseteq>\<^sub>m ctx s2"
    using main [where n = ?n and P = P0 and self = s1 and target = "VRef 2" and w = w1] run2 by blast
  note first = main [where n = ?n and P = P0 and target = "VRef 1" and w = w0 and r = "Inr (VRef 1)"
      and self' = s1 and w' = w1, THEN conjunct2, THEN conjunct2, rule_format, OF conjI, OF run1 t0]
  have c: "cache_key BookLoader \<in> set (built_keys (trace w1))"
    using first inj by blast
  obtain t where "trace w2 = trace w1 @ t" "set (built_keys t) \<inter> set (built_keys (trace w1)) = {}"
    using first run2 by blast
  with a b c run1 run2 inj show ?thesis by blast
qed

section \<open>Fields before post methods\<close>

text \<open>
  The loop over the post methods returns normally exactly when every key passes
  both lookups on the heap its predecessors left.
\<close>

lemma run_post_methods_Inr_iff:
  "run_post_methods P target keys self w = (Inr (), self', w') \<longleftrightarrow>
     self' = self
     \<and> (\<forall>j<length keys.
           hasattr P (fold (post_effect P target) (take j keys) (heap w)) target
             (str_replace_del (POST_PREFIX P) (keys ! j))
           \<and> get_post_method P (fold (post_effect P target) (take j keys) (heap w)) target (keys ! j) \<noteq> None)
     \<and> w' = w\<lparr>heap := fold (post_effect P target) keys (heap w),
               trace := trace w @ map (PostCall target) keys\<rparr>"
proof (induction keys arbitrary: w)
  case Nil
  then show ?case by auto
next
  case (Cons post_key keys)
  let ?ok = "hasattr P (heap w) target (str_replace_del (POST_PREFIX P) post_key)
             \<and> get_post_method P (heap w) target post_key \<noteq> None"
  show ?case
  proof (cases ?ok)
    case False
    then have "run_post_methods P target (post_key # keys) self w \<noteq> (Inr (), self', w')"
      by (auto simp: Let_def split: option.splits)
    moreover have "\<not> (\<forall>j<length (post_key # keys).
           hasattr P (fold (post_effect P target) (take j (post_key # keys)) (heap w)) target
             (str_replace_del (POST_PREFIX P) ((post_key # keys) ! j))
           \<and> get_post_method P (fold (post_effect P target) (take j (post_key # keys)) (heap w)) target
                ((post_key # keys) ! j) \<noteq> None)"
      using False by (auto intro!: exI [of _ 0])
    ultimately show ?thesis by blast
  next
    case True
    then obtain pm where pm: "get_post_method P (heap w) target post_key = Some pm" by auto
    obtain rv h' where b: "post_body pm target (heap w) = (rv, h')"
      by (cases "post_body pm target (heap w)")
    have h': "post_effect P target post_key (heap w) = h'"
      using pm b by (simp add: post_effect_def)
    let ?w = "w\<lparr>heap := h', trace := trace w @ [PostCall target post_key]\<rparr>"
    have run: "run_post_methods P target (post_key # keys) self w = run_post_methods P target keys self ?w"
      using True pm b by (simp add: Let_def)
    have all: "(\<forall>j<length (post_key # keys).
           hasattr P (fold (post_effect P target) (take j (post_key # keys)) (heap w)) target
             (str_replace_del (POST_PREFIX P) ((post_key # keys) ! j))
           \<and> get_post_method P (fold (post_effect P target) (take j (post_key # keys)) (heap w)) target
                ((post_key # keys) ! j) \<noteq> None)
       \<longleftrightarrow> (\<forall>j<length keys.
           hasattr P (fold (post_effect P target) (take j keys) (heap ?w)) target
             (str_replace_del (POST_PREFIX P) (keys ! j))
           \<and> get_post_method P (fold (post_effect P target) (take j keys) (heap ?w)) target (keys ! j) \<noteq> None)"
      (is "(\<forall>j<length (post_key # keys). ?A j) \<longleftrightarrow> (\<forall>j<length keys. ?B j)")
    proof
      assume l: "\<forall>j<length (post_key # keys). ?A j"
      show "\<forall>j<length keys. ?B j"
      proof (intro allI impI)
        fix j assume "j < length keys"
        with l [rule_format, of "Suc j"] show "?B j" by (simp add: h')
      qed
    next
      assume r: "\<forall>j<length keys. ?B j"
      show "\<forall>j<length (post_key # keys). ?A j"
      proof (intro allI impI)
        fix j assume "j < length (post_key # keys)"
        then show "?A j"
          using True r [rule_format, of "j - 1"] by (cases j) (simp_all add: h')
      qed
    qed
    have w: "?w\<lparr>heap := fold (post_effect P target) keys (heap ?w),
               trace := trace ?w @ map (PostCall target) keys\<rparr>
          = w\<lparr>heap := fold (post_effect P target) (post_key # keys) (heap w),
               trace := trace w @ map (PostCall target) (post_key # keys)\<rparr>"
      by (simp add: h')
    show ?thesis
      unfolding run Cons.IH all w ..
  qed
qed


text \<open>
  The order of fields and post methods.  When \<open>resolve\<close> returns normally on an
  acceptable object that is no list or tuple, every resolver field of the object, in
  the order of enumeration, was resolved by a step that returned normally, each from
  the state the one before it left; only then, in the state the last step left, the
  post methods were called, one after the other in the order of enumeration, each
  after \<open>hasattr\<close> held for \<^verbatim>\<open>post_key.replace(POST_PREFIX, '')\<close> on the heap the
  post methods before it left.  The calls of the post methods are the last entries
  of the log of the call, and they alone change the heap after the fields.
\<close>

theorem hooks_run_after_fields:
  assumes run: "resolve (Suc n) P self target w = Some (Inr v, self', w')"
    and obj: "\<not> isinstance_list_tuple (heap w) target" "is_acceptable_type P (heap w) target"
  shows "\<exists>sts. length sts = Suc (length (iter_over_object_resolvers P (heap w) target))
      \<and> sts ! 0 = (self, w)
      \<and> (\<forall>i<length (iter_over_object_resolvers P (heap w) target).
            resolve_obj n P (fst (sts ! i)) target (iter_over_object_resolvers P (heap w) target ! i)
              (snd (sts ! i)) = Some (Inr (), sts ! Suc i))
      \<and> (\<exists>t. trace (snd (last sts)) = trace w @ t)
      \<and> self' = fst (last sts)
      \<and> (\<forall>j<length (iter_over_object_post_methods P (heap (snd (last sts))) target).
            hasattr P
              (fold (post_effect P target)
                 (take j (iter_over_object_post_methods P (heap (snd (last sts))) target))
                 (heap (snd (last sts))))
              target
              (str_replace_del (POST_PREFIX P)
                 (iter_over_object_post_methods P (heap (snd (last sts))) target ! j)))
      \<and> trace w' = trace (snd (last sts))
            @ map (PostCall target) (iter_over_object_post_methods P (heap (snd (last sts))) target)
      \<and> heap w' = fold (post_effect P target)
                     (iter_over_object_post_methods P (heap (snd (last sts))) target)
                     (heap (snd (last sts)))"
proof -
  let ?fields = "iter_over_object_resolvers P (heap w) target"
  let ?f = "\<lambda>field s. resolve_obj_step (resolve n P) P s target field"
  from run obj obtain s2 w2 where
    g: "gather ?f ?fields self w = Some (Inr (), s2, w2)"
    and p: "run_post_methods P target (iter_over_object_post_methods P (heap w2) target) s2 w2
             = (Inr (), self', w')"
    by (auto simp: resolve_step_Inr_iff)
  from g obtain sts where
    sts: "length sts = Suc (length ?fields)" "sts ! 0 = (self, w)" "last sts = (s2, w2)"
      "\<forall>i<length ?fields. \<exists>r. ?f (?fields ! i) (fst (sts ! i)) (snd (sts ! i)) = Some (Inr r, sts ! Suc i)"
    unfolding gather_Inr_iff by blast
  have steps: "\<forall>i<length ?fields.
      resolve_obj n P (fst (sts ! i)) target (?fields ! i) (snd (sts ! i)) = Some (Inr (), sts ! Suc i)"
    using sts(4) by (simp add: resolve_obj_def)
  have "preserves (gather ?f ?fields)"
    by (intro gather_preserves resolve_obj_step_preserves resolve_preserves)
  from preservesD [OF this g] obtain t where t: "trace w2 = trace w @ t"
    by (auto simp: grows_def)
  note q = p [unfolded run_post_methods_Inr_iff]
  show ?thesis
    using sts(1,2) steps t q unfolding sts(3)
    by (intro exI [of _ sts]) (simp add: sts(3))
qed


theorem hooks_run_after_fields_witness:
  "\<exists>s' w' s2 w2.
     resolve (Suc (Suc (Suc 0))) P0 r0 (VRef 1) w0 = Some (Inr (VRef 1), s', w')
     \<and> iter_over_object_resolvers P0 (heap w0) (VRef 1) = [''resolve_books'']
     \<and> resolve_obj (Suc (Suc 0)) P0 r0 (VRef 1) ''resolve_books'' w0 = Some (Inr (), s2, w2)
     \<and> iter_over_object_post_methods P0 (heap w2) (VRef 1) = [''post_count'']
     \<and> hasattr P0 (heap w2) (VRef 1) ''count''
     \<and> trace w' = trace w2 @ [PostCall (VRef 1) ''post_count'']"
proof -
  let ?n = "Suc (Suc 0)"
  have c: "\<not> isinstance_list_tuple (heap w0) (VRef 1)" "is_acceptable_type P0 (heap w0) (VRef 1)"
    by (simp_all add: model_defs ex_defs)
  have fs: "iter_over_object_resolvers P0 (heap w0) (VRef 1) = [''resolve_books'']"
    by (simp add: model_defs ex_defs)
  have "\<exists>s' w'. resolve (Suc ?n) P0 r0 (VRef 1) w0 = Some (Inr (VRef 1), s', w')"
    by (simp add: model_defs ex_defs)
  then obtain s' w' where run: "resolve (Suc ?n) P0 r0 (VRef 1) w0 = Some (Inr (VRef 1), s', w')"
    by blast
  have "\<exists>s2 w2. resolve_obj ?n P0 r0 (VRef 1) ''resolve_books'' w0 = Some (Inr (), s2, w2)
          \<and> iter_over_object_post_methods P0 (heap w2) (VRef 1) = [''post_count'']"
    by (simp add: resolve_obj_def model_defs ex_defs)
  then obtain s2 w2 where e1: "resolve_obj ?n P0 r0 (VRef 1) ''resolve_books'' w0 = Some (Inr (), s2, w2)"
    and ks: "iter_over_object_post_methods P0 (heap w2) (VRef 1) = [''post_count'']"
    by blast
  from hooks_run_after_fields [OF run c] obtain sts where
    sts: "length sts = Suc (length (iter_over_object_resolvers P0 (heap w0) (VRef 1)))"
      "sts ! 0 = (r0, w0)"
      "\<forall>i<length (iter_over_object_resolvers P0 (heap w0) (VRef 1)).
            resolve_obj ?n P0 (fst (sts ! i)) (VRef 1) (iter_over_object_resolvers P0 (heap w0) (VRef 1) ! i)
              (snd (sts ! i)) = Some (Inr (), sts ! Suc i)"
      "\<forall>j<length (iter_over_object_post_methods P0 (heap (snd (last sts))) (VRef 1)).
            hasattr P0
              (fold (post_effect P0 (VRef 1))
                 (take j (iter_over_object_post_methods P0 (heap (snd (last sts))) (VRef 1)))
                 (heap (snd (last sts))))
              (VRef 1)
              (str_replace_del (POST_PREFIX P0)
                 (iter_over_object_post_methods P0 (heap (snd (last sts))) (VRef 1) ! j))"
      "trace w' = trace (snd (last sts))
            @ map (PostCall (VRef 1)) (iter_over_object_post_methods P0 (heap (snd (last sts))) (VRef 1))"
    by blast
  have l2: "length sts = Suc (Suc 0)" using sts(1) unfolding fs by simp
  have "sts ! Suc 0 = (s2, w2)"
    using sts(3) [unfolded fs, rule_format, of 0] sts(2) e1 by simp
  moreover have "last sts = sts ! Suc 0"
    using l2 by (cases sts) (auto simp: last_conv_nth)
  ultimately have last: "last sts = (s2, w2)" by simp
  have "hasattr P0 (heap w2) (VRef 1) ''count''"
    using sts(4) [unfolded last snd_conv ks, rule_format, of 0] by (simp add: ex_defs)
  moreover have "trace w' = trace w2 @ [PostCall (VRef 1) ''post_count'']"
    using sts(5) [unfolded last snd_conv ks] by simp
  ultimately show ?thesis using run fs e1 ks by blast
qed

section \<open>The bound on the depth\<close>

lemma gather_mono:
  assumes "\<And>x s u r. f x s u = Some r \<Longrightarrow> g x s u = Some r"
  shows "gather f xs self w = Some r \<Longrightarrow> gather g xs self w = Some r"
proof (induction xs arbitrary: self w)
  case Nil
  then show ?case by simp
next
  case (Cons x xs)
  from Cons.prems obtain r1 where f1: "f x self w = Some r1"
    by (cases "f x self w") auto
  then have g1: "g x self w = Some r1" by (rule assms)
  obtain e s1 w1 where r1: "r1 = (e, s1, w1)" by (cases r1)
  show ?case
  proof (cases e)
    case (Inl a)
    with Cons.prems f1 g1 r1 show ?thesis by simp
  next
    case (Inr b)
    with Cons.prems f1 r1 have "gather f xs s1 w1 = Some r" by simp
    then have "gather g xs s1 w1 = Some r" by (rule Cons.IH)
    with g1 r1 Inr show ?thesis by simp
  qed
qed

lemma resolve_obj_step_mono:
  assumes "\<And>s t u r. rec s t u = Some r \<Longrightarrow> rec' s t u = Some r"
    and "resolve_obj_step rec P self target field w = Some r"
  shows "resolve_obj_step rec' P self target field w = Some r"
proof (cases "get_resolver P (heap w) target field")
  case None
  with assms(2) show ?thesis by (simp add: resolve_obj_step_def)
next
  case (Some item)
  obtain er s1 w1 where e: "exec_method self target field item w = (er, s1, w1)"
    by (cases "exec_method self target field item w") auto
  show ?thesis
  proof (cases er)
    case (Inl x)
    with assms(2) Some e show ?thesis by (simp add: resolve_obj_step_def Let_def)
  next
    case (Inr v)
    show ?thesis
    proof (cases "rec s1 (await_all v) w1")
      case None
      with assms(2) Some e Inr show ?thesis
        by (auto simp: resolve_obj_step_def Let_def split: if_splits)
    next
      case (Some r2)
      then have "rec' s1 (await_all v) w1 = Some r2" by (rule assms(1))
      with assms(2) \<open>get_resolver P (heap w) target field = Some item\<close> e Inr Some show ?thesis
        by (auto simp: resolve_obj_step_def Let_def split: if_splits)
    qed
  qed
qed

lemma resolve_step_mono:
  assumes rec: "\<And>s t u r. rec s t u = Some r \<Longrightarrow> rec' s t u = Some r"
    and run: "resolve_step rec P self target w = Some r"
  shows "resolve_step rec' P self target w = Some r"
proof -
  let ?g1 = "\<lambda>rc. if isinstance_list_tuple (heap w) target
             then gather (\<lambda>t s. rc s t) (elements (heap w) target) self w
             else Some (Inr (), self, w)"
  obtain r1 where g1: "?g1 rec = Some r1"
    using run by (cases "?g1 rec") (auto simp: resolve_step_def)
  have g1': "?g1 rec' = Some r1"
    using g1 gather_mono [of "\<lambda>t s. rec s t" "\<lambda>t s. rec' s t", OF rec]
    by (auto split: if_splits)
  obtain e s1 w1 where r1: "r1 = (e, s1, w1)" by (cases r1)
  show ?thesis
  proof (cases "isl e \<or> \<not> is_acceptable_type P (heap w1) target")
    case True
    with run g1 g1' r1 show ?thesis
      by (cases e) (auto simp: resolve_step_def)
  next
    case False
    then obtain u where e: "e = Inr u" by (cases e) auto
    let ?g2 = "\<lambda>rc. gather (\<lambda>field s. resolve_obj_step rc P s target field)
                    (iter_over_object_resolvers P (heap w1) target) s1 w1"
    obtain r2 where g2: "?g2 rec = Some r2"
      using run g1 r1 e False by (cases "?g2 rec") (auto simp: resolve_step_def)
    have g2': "?g2 rec' = Some r2"
      using g2
      by (rule gather_mono [rotated]) (rule resolve_obj_step_mono [OF rec])
    show ?thesis
      using run g1 g1' r1 e False g2 g2' by (simp add: resolve_step_def)
  qed
qed

lemma resolve_Suc_mono:
  "resolve n P self target w = Some r \<Longrightarrow> resolve (Suc n) P self target w = Some r"
proof (induction n arbitrary: self target w r)
  case 0
  then show ?case by simp
next
  case (Suc n)
  have "resolve_step (resolve n P) P self target w = Some r"
    using Suc.prems by simp
  then have "resolve_step (resolve (Suc n) P) P self target w = Some r"
    by (rule resolve_step_mono [rotated]) (rule Suc.IH)
  then show ?case by simp
qed

text \<open>
  The bound does not change what a call returns: a call that returns or raises
  within depth \<open>n\<close> does the same, in the same state, within any greater depth.
\<close>

theorem resolve_depth_monotone:
  "resolve n P self target w = Some r \<Longrightarrow> n \<le> m \<Longrightarrow> resolve m P self target w = Some r"
proof (induction m)
  case 0
  then show ?case by simp
next
  case (Suc m)
  show ?case
  proof (cases "n = Suc m")
    case True
    with Suc.prems show ?thesis by simp
  next
    case False
    with Suc.prems have "n \<le> m" by simp
    with Suc have "resolve m P self target w = Some r" by simp
    then show ?thesis by (rule resolve_Suc_mono)
  qed
qed

theorem resolve_depth_monotone_witness:
  "\<exists>r. resolve (Suc (Suc (Suc 0))) P0 r0 (VRef 1) w0 = Some r
       \<and> resolve (Suc (Suc (Suc (Suc (Suc 0))))) P0 r0 (VRef 1) w0 = Some r"
proof -
  have "\<exists>r. resolve (Suc (Suc (Suc 0))) P0 r0 (VRef 1) w0 = Some r"
    by (simp add: model_defs ex_defs)
  then obtain r where r: "resolve (Suc (Suc (Suc 0))) P0 r0 (VRef 1) w0 = Some r" by blast
  from resolve_depth_monotone [OF r, of "Suc (Suc (Suc (Suc (Suc 0))))"]
  have "resolve (Suc (Suc (Suc (Suc (Suc 0))))) P0 r0 (VRef 1) w0 = Some r" by simp
  with r show ?thesis by blast
qed

end
